theory Spec2Isabelle
  imports Complex_Main "HOL-Library.Word" "HOL-Library.Monad_Syntax"
begin

section \<open>Errors\<close>

text \<open>
  The exceptions the library throws, by what they report: a direction outside {0, 1, 2}
  (\<open>InvalidArgument\<close>), a kernel as long as the row given to the SSE convolver
  (\<open>KernelTooLarge\<close>), a rank at its ceiling in \<open>unite\<close> (\<open>GraphOverflow\<close>) and a label counter
  at its ceiling (\<open>TooManyComponents\<close>). \<open>UndefinedBehaviour\<close> stands for what C++ leaves
  undefined: indexing a vector past its end, or converting to \<open>int\<close> a value that has no
  \<open>int\<close> counterpart.
\<close>

datatype error =
    InvalidArgument
  | KernelTooLarge
  | GraphOverflow
  | TooManyComponents
  | UndefinedBehaviour

section \<open>Disjoint-set nodes\<close>

text \<open>
  \<open>Set<U>\<close>: the nodes live in one array and a \<open>Set*\<close> is the index of a node in it, the null
  pointer being \<open>None\<close>. The rank is an \<open>unsigned short\<close>. \<open>find\<close> recurses along the parent
  links and rewrites them on the way back; it has no result on a cyclic chain or on an index
  outside the array, which is the value \<open>None\<close>.
\<close>

record 'u Set_node =
  rank :: "16 word"
  hasLabel :: bool
  label :: 'u
  parent :: "nat option"

definition Set_init :: "'u::zero Set_node" where
  "Set_init = \<lparr>rank = 0, hasLabel = False, label = 0, parent = None\<rparr>"

partial_function (option) Set_find ::
    "'u Set_node list \<Rightarrow> nat \<Rightarrow> (nat \<times> 'u Set_node list) option" where
  "Set_find s i =
     (if i < length s then
        (case parent (s ! i) of
           None \<Rightarrow> Some (i, s)
         | Some p \<Rightarrow> do {
             (r, s') \<leftarrow> Set_find s p;
             Some (r, s'[i := (s' ! i)\<lparr>parent := Some r\<rparr>])
           })
      else None)"

declare Set_find.simps [code]

definition Set_unite ::
    "'u Set_node list \<Rightarrow> nat \<Rightarrow> nat \<Rightarrow> (error + 'u Set_node list) option" where
  "Set_unite s x y = do {
     (xRoot, s1) \<leftarrow> Set_find s x;
     (yRoot, s2) \<leftarrow> Set_find s1 y;
     if rank (s2 ! xRoot) > rank (s2 ! yRoot) then
       Some (Inr (s2[yRoot := (s2 ! yRoot)\<lparr>parent := Some xRoot\<rparr>]))
     else if rank (s2 ! xRoot) < rank (s2 ! yRoot) then
       Some (Inr (s2[xRoot := (s2 ! xRoot)\<lparr>parent := Some yRoot\<rparr>]))
     else if xRoot \<noteq> yRoot then
       (let s3 = s2[yRoot := (s2 ! yRoot)\<lparr>parent := Some xRoot\<rparr>] in
        if rank (s3 ! xRoot) = 65535 then Some (Inl GraphOverflow)
        else Some (Inr (s3[xRoot := (s3 ! xRoot)\<lparr>rank := rank (s3 ! xRoot) + 1\<rparr>])))
     else Some (Inr s2)
   }"

text \<open>
  Notions used to state what the operations do: a well-formed forest (parent links stay inside
  the array and go to strictly larger ranks), the root a node leads to, the non-root nodes on
  the chain walked from a node, and membership in the same set.
\<close>

definition forest :: "'u Set_node list \<Rightarrow> bool" where
  "forest s \<longleftrightarrow>
     (\<forall>i < length s. \<forall>p. parent (s ! i) = Some p \<longrightarrow> p < length s \<and> rank (s ! i) < rank (s ! p))"

inductive root_of :: "'u Set_node list \<Rightarrow> nat \<Rightarrow> nat \<Rightarrow> bool" for s where
  root_self: "i < length s \<Longrightarrow> parent (s ! i) = None \<Longrightarrow> root_of s i i"
| root_step: "i < length s \<Longrightarrow> parent (s ! i) = Some p \<Longrightarrow> root_of s p r \<Longrightarrow> root_of s i r"

inductive on_chain :: "'u Set_node list \<Rightarrow> nat \<Rightarrow> nat \<Rightarrow> bool" for s where
  chain_here: "i < length s \<Longrightarrow> parent (s ! i) = Some p \<Longrightarrow> on_chain s i i"
| chain_up: "i < length s \<Longrightarrow> parent (s ! i) = Some p \<Longrightarrow> on_chain s p k \<Longrightarrow> on_chain s i k"

definition same_set :: "'u Set_node list \<Rightarrow> nat \<Rightarrow> nat \<Rightarrow> bool" where
  "same_set s i j \<longleftrightarrow> (\<exists>r. root_of s i r \<and> root_of s j r)"


definition find_post :: "'u Set_node list \<Rightarrow> nat \<Rightarrow> nat \<Rightarrow> 'u Set_node list \<Rightarrow> bool" where
  "find_post s i r s' \<longleftrightarrow>
     root_of s i r \<and> length s' = length s \<and> forest s' \<and>
     (\<forall>j r'. root_of s' j r' \<longleftrightarrow> root_of s j r') \<and>
     (\<forall>j < length s. rank (s' ! j) = rank (s ! j) \<and> hasLabel (s' ! j) = hasLabel (s ! j)
        \<and> label (s' ! j) = label (s ! j)) \<and>
     (\<forall>k. on_chain s i k \<longrightarrow> parent (s' ! k) = Some r) \<and>
     (\<forall>j < length s. s' ! j = (if on_chain s i j then (s ! j)\<lparr>parent := Some r\<rparr> else s ! j))"


definition unite_post :: "'u Set_node list \<Rightarrow> nat \<Rightarrow> nat \<Rightarrow> 'u Set_node list \<Rightarrow> bool" where
  "unite_post s x y s' \<longleftrightarrow>
     forest s' \<and> length s' = length s \<and>
     (\<forall>i j. same_set s' i j \<longleftrightarrow>
        same_set s i j \<or> (same_set s i x \<and> same_set s y j) \<or> (same_set s i y \<and> same_set s x j)) \<and>
     (\<forall>j < length s. rank (s ! j) \<le> rank (s' ! j) \<and> hasLabel (s' ! j) = hasLabel (s ! j)
        \<and> label (s' ! j) = label (s ! j))"

text \<open>The union step in the words of the specification, for comparison with \<open>Set_unite\<close>.\<close>

definition unite_spec ::
    "'u Set_node list \<Rightarrow> nat \<Rightarrow> nat \<Rightarrow> (error + 'u Set_node list) option" where
  "unite_spec s x y = do {
     (xr, s1) \<leftarrow> Set_find s x;
     (yr, s2) \<leftarrow> Set_find s1 y;
     if xr = yr then Some (Inr s2)
     else if rank (s2 ! xr) < rank (s2 ! yr) then
       Some (Inr (s2[xr := (s2 ! xr)\<lparr>parent := Some yr\<rparr>]))
     else if rank (s2 ! yr) < rank (s2 ! xr) then
       Some (Inr (s2[yr := (s2 ! yr)\<lparr>parent := Some xr\<rparr>]))
     else if rank (s2 ! xr) = 65535 then Some (Inl GraphOverflow)
     else Some (Inr (s2[yr := (s2 ! yr)\<lparr>parent := Some xr\<rparr>,
                        xr := (s2 ! xr)\<lparr>rank := rank (s2 ! xr) + 1\<rparr>]))
   }"


section \<open>Connected components\<close>

text \<open>
  \<open>findConnectedComponents3d<T, U>\<close> for an unsigned label type \<open>U\<close>, modelled as a word. The
  input and output volumes are lists in scan order, voxel (u, v, w) at index
  \<open>w * width * height + v * width + u\<close>, which is how the node array is laid out and what the
  strides passed by the wrapper amount to. \<open>pixelCount_\<close> is an \<open>unsigned long\<close> of 32 bits. A
  \<open>for\<close> loop is \<open>for_each\<close> over its range; the body may fail or not return.
\<close>

record 't ComponentStatistics =
  pixelCount :: "32 word"
  inputLabel :: 't

fun for_each :: "'x list \<Rightarrow> ('x \<Rightarrow> 's \<Rightarrow> (error + 's) option) \<Rightarrow> 's \<Rightarrow> (error + 's) option" where
  "for_each [] body s = Some (Inr s)"
| "for_each (x # xs) body s =
     (case body x s of
        None \<Rightarrow> None
      | Some (Inl e) \<Rightarrow> Some (Inl e)
      | Some (Inr s') \<Rightarrow> for_each xs body s')"

definition du :: "int list" where "du = [0, -1, 0]"
definition dv :: "int list" where "dv = [0, 0, -1]"
definition dw :: "int list" where "dw = [-1, 0, 0]"

definition voxel_index :: "nat \<Rightarrow> nat \<Rightarrow> nat \<Rightarrow> nat \<Rightarrow> nat \<Rightarrow> nat" where
  "voxel_index width height u v w = w * width * height + v * width + u"

definition unite_neighbor ::
    "nat \<Rightarrow> nat \<Rightarrow> nat \<Rightarrow> 't list \<Rightarrow> nat \<Rightarrow> nat \<Rightarrow> nat \<Rightarrow> nat \<Rightarrow>
     'u Set_node list \<Rightarrow> (error + 'u Set_node list) option" where
  "unite_neighbor width height depth inputBuffer w v u i components =
     (if int u + du ! i \<ge> 0 \<and> int u + du ! i < int width \<and>
         int v + dv ! i \<ge> 0 \<and> int v + dv ! i < int height \<and>
         int w + dw ! i \<ge> 0 \<and> int w + dw ! i < int depth
      then
        (let q = voxel_index width height
                   (nat (int u + du ! i)) (nat (int v + dv ! i)) (nat (int w + dw ! i))
         in if inputBuffer ! q = inputBuffer ! voxel_index width height u v w
            then Set_unite components (voxel_index width height u v w) q
            else Some (Inr components))
      else Some (Inr components))"

definition connect_voxel ::
    "nat \<Rightarrow> nat \<Rightarrow> nat \<Rightarrow> 't list \<Rightarrow> 't \<Rightarrow> nat \<Rightarrow> nat \<Rightarrow> nat \<Rightarrow>
     'u Set_node list \<Rightarrow> (error + 'u Set_node list) option" where
  "connect_voxel width height depth inputBuffer backgroundColor w v u components =
     (if inputBuffer ! voxel_index width height u v w \<noteq> backgroundColor
      then for_each [0..<3] (unite_neighbor width height depth inputBuffer w v u) components
      else Some (Inr components))"

definition build_forest ::
    "nat \<Rightarrow> nat \<Rightarrow> nat \<Rightarrow> 't list \<Rightarrow> 't \<Rightarrow> 'u Set_node list \<Rightarrow> (error + 'u Set_node list) option" where
  "build_forest width height depth inputBuffer backgroundColor =
     for_each [0..<depth] (\<lambda>w.
       for_each [0..<height] (\<lambda>v.
         for_each [0..<width] (\<lambda>u.
           connect_voxel width height depth inputBuffer backgroundColor w v u)))"

record ('t, 'u) labelling =
  components :: "'u Set_node list"
  nextLabel :: 'u
  statistics :: "'t ComponentStatistics list"
  outputBuffer :: "'u list"

definition assign_label ::
    "'t \<Rightarrow> 'u::len word \<Rightarrow> 't \<Rightarrow> nat \<Rightarrow> ('t, 'u word) labelling \<Rightarrow> error + ('t, 'u word) labelling" where
  "assign_label backgroundColor backgroundLabel color rootNode st =
     (if \<not> hasLabel (components st ! rootNode) then
        (let comps = (components st)
               [rootNode := (components st ! rootNode)\<lparr>label := nextLabel st, hasLabel := True\<rparr>]
         in if nextLabel st = - 1 then Inl TooManyComponents
            else
              (let label1 = nextLabel st + 1;
                   stats1 = statistics st @ [\<lparr>pixelCount = 0, inputLabel = color\<rparr>]
               in if label1 = backgroundLabel then
                    (if label1 = - 1 then Inl TooManyComponents
                     else Inr (st\<lparr>components := comps, nextLabel := label1 + 1,
                            statistics := stats1 @ [\<lparr>pixelCount = 0, inputLabel = backgroundColor\<rparr>]\<rparr>))
                  else Inr (st\<lparr>components := comps, nextLabel := label1, statistics := stats1\<rparr>)))
      else Inr st)"

definition write_label ::
    "'t list \<Rightarrow> 't \<Rightarrow> 'u::len word \<Rightarrow> nat \<Rightarrow> ('t, 'u word) labelling \<Rightarrow> (error + ('t, 'u word) labelling) option" where
  "write_label inputBuffer backgroundColor backgroundLabel k st =
     (if inputBuffer ! k = backgroundColor
      then Some (Inr (st\<lparr>outputBuffer := (outputBuffer st)[k := backgroundLabel]\<rparr>))
      else do {
        (rootNode, comps) \<leftarrow> Set_find (components st) k;
        (case assign_label backgroundColor backgroundLabel (inputBuffer ! k) rootNode
                (st\<lparr>components := comps\<rparr>) of
           Inl e \<Rightarrow> Some (Inl e)
         | Inr st' \<Rightarrow>
             Some (Inr (st'\<lparr>outputBuffer := (outputBuffer st')[k := label (components st' ! rootNode)]\<rparr>)))
      })"

definition count_pixel :: "nat \<Rightarrow> ('t, 'u::len word) labelling \<Rightarrow> (error + ('t, 'u word) labelling) option" where
  "count_pixel k st =
     (let l = unat (outputBuffer st ! k) in
      if l < length (statistics st)
      then Some (Inr (st\<lparr>statistics := (statistics st)
                  [l := (statistics st ! l)\<lparr>pixelCount := pixelCount (statistics st ! l) + 1\<rparr>]\<rparr>))
      else Some (Inl UndefinedBehaviour))"

definition label_voxel ::
    "nat \<Rightarrow> nat \<Rightarrow> 't list \<Rightarrow> 't \<Rightarrow> 'u::len word \<Rightarrow> nat \<Rightarrow> nat \<Rightarrow> nat \<Rightarrow>
     ('t, 'u word) labelling \<Rightarrow> (error + ('t, 'u word) labelling) option" where
  "label_voxel width height inputBuffer backgroundColor backgroundLabel w v u st =
     (case write_label inputBuffer backgroundColor backgroundLabel (voxel_index width height u v w) st of
        None \<Rightarrow> None
      | Some (Inl e) \<Rightarrow> Some (Inl e)
      | Some (Inr st') \<Rightarrow> count_pixel (voxel_index width height u v w) st')"

definition assign_labels ::
    "nat \<Rightarrow> nat \<Rightarrow> nat \<Rightarrow> 't list \<Rightarrow> 't \<Rightarrow> 'u::len word \<Rightarrow>
     ('t, 'u word) labelling \<Rightarrow> (error + ('t, 'u word) labelling) option" where
  "assign_labels width height depth inputBuffer backgroundColor backgroundLabel =
     for_each [0..<depth] (\<lambda>w.
       for_each [0..<height] (\<lambda>v.
         for_each [0..<width] (\<lambda>u.
           label_voxel width height inputBuffer backgroundColor backgroundLabel w v u)))"

definition initial_labelling ::
    "'t \<Rightarrow> 'u::len word \<Rightarrow> 'u word Set_node list \<Rightarrow> 'u word list \<Rightarrow> ('t, 'u word) labelling" where
  "initial_labelling backgroundColor backgroundLabel comps out =
     (if 0 = backgroundLabel
      then \<lparr>components = comps, nextLabel = 0 + 1,
            statistics = [\<lparr>pixelCount = 0, inputLabel = backgroundColor\<rparr>], outputBuffer = out\<rparr>
      else \<lparr>components = comps, nextLabel = 0, statistics = [], outputBuffer = out\<rparr>)"

definition findConnectedComponents3d ::
    "nat \<Rightarrow> nat \<Rightarrow> nat \<Rightarrow> 't list \<Rightarrow> 't \<Rightarrow> 'u::len word list \<Rightarrow> 'u word \<Rightarrow>
     (error + 'u word list \<times> 't ComponentStatistics list) option" where
  "findConnectedComponents3d width height depth inputBuffer backgroundColor outputBuffer0 backgroundLabel =
     (case build_forest width height depth inputBuffer backgroundColor
             (replicate (width * height * depth) Set_init) of
        None \<Rightarrow> None
      | Some (Inl e) \<Rightarrow> Some (Inl e)
      | Some (Inr comps) \<Rightarrow>
          (case assign_labels width height depth inputBuffer backgroundColor backgroundLabel
                  (initial_labelling backgroundColor backgroundLabel comps outputBuffer0) of
             None \<Rightarrow> None
           | Some (Inl e) \<Rightarrow> Some (Inl e)
           | Some (Inr st) \<Rightarrow> Some (Inr (outputBuffer st, statistics st))))"


text \<open>Specification-side notions for volumes: voxels, face neighbours and paths.\<close>

type_synonym voxel = "nat \<times> nat \<times> nat"

definition in_volume :: "nat \<Rightarrow> nat \<Rightarrow> nat \<Rightarrow> voxel \<Rightarrow> bool" where
  "in_volume width height depth p = (case p of (u, v, w) \<Rightarrow> u < width \<and> v < height \<and> w < depth)"

definition voxel_at :: "nat \<Rightarrow> nat \<Rightarrow> voxel \<Rightarrow> nat" where
  "voxel_at width height p = (case p of (u, v, w) \<Rightarrow> voxel_index width height u v w)"

definition face_neighbors :: "voxel \<Rightarrow> voxel \<Rightarrow> bool" where
  "face_neighbors p q =
     (case p of (u, v, w) \<Rightarrow> case q of (u', v', w') \<Rightarrow>
        (v = v' \<and> w = w' \<and> (u = u' + 1 \<or> u' = u + 1)) \<or>
        (u = u' \<and> w = w' \<and> (v = v' + 1 \<or> v' = v + 1)) \<or>
        (u = u' \<and> v = v' \<and> (w = w' + 1 \<or> w' = w + 1)))"


definition value_step :: "nat \<Rightarrow> nat \<Rightarrow> nat \<Rightarrow> 't list \<Rightarrow> voxel \<Rightarrow> voxel \<Rightarrow> bool" where
  "value_step width height depth inputBuffer p q \<longleftrightarrow>
     in_volume width height depth p \<and> in_volume width height depth q \<and> face_neighbors p q \<and>
     inputBuffer ! voxel_at width height p = inputBuffer ! voxel_at width height q"

definition scan_order :: "nat \<Rightarrow> nat \<Rightarrow> nat \<Rightarrow> voxel list" where
  "scan_order width height depth =
     map (\<lambda>(w, v, u). (u, v, w)) (List.product [0..<depth] (List.product [0..<height] [0..<width]))"


text \<open>Invariants used in the proofs about the two passes.\<close>

definition earlier_neighbor :: "nat \<Rightarrow> voxel \<Rightarrow> voxel \<Rightarrow> bool" where
  "earlier_neighbor i p q =
     (case p of (u, v, w) \<Rightarrow> case q of (u', v', w') \<Rightarrow>
        int u' = int u + du ! i \<and> int v' = int v + dv ! i \<and> int w' = int w + dw ! i)"

definition linked_to_earlier ::
    "nat \<Rightarrow> nat \<Rightarrow> nat \<Rightarrow> 't list \<Rightarrow> nat set \<Rightarrow> voxel \<Rightarrow> 'u Set_node list \<Rightarrow> bool" where
  "linked_to_earlier width height depth inputBuffer B p s \<longleftrightarrow>
     (\<forall>i \<in> B. \<forall>q. earlier_neighbor i p q \<and> in_volume width height depth q \<and>
        inputBuffer ! voxel_at width height q = inputBuffer ! voxel_at width height p
        \<longrightarrow> same_set s (voxel_at width height p) (voxel_at width height q))"

definition pass1_inv ::
    "nat \<Rightarrow> nat \<Rightarrow> nat \<Rightarrow> 't list \<Rightarrow> 't \<Rightarrow> voxel set \<Rightarrow> 'u Set_node list \<Rightarrow> bool" where
  "pass1_inv width height depth inputBuffer backgroundColor A s \<longleftrightarrow>
     forest s \<and> length s = width * height * depth \<and>
     (\<forall>j < width * height * depth. \<not> hasLabel (s ! j)) \<and>
     (\<forall>p q. in_volume width height depth p \<and> in_volume width height depth q \<and>
        same_set s (voxel_at width height p) (voxel_at width height q)
        \<longrightarrow> (value_step width height depth inputBuffer)\<^sup>*\<^sup>* p q) \<and>
     (\<forall>p \<in> A. inputBuffer ! voxel_at width height p \<noteq> backgroundColor \<longrightarrow>
        linked_to_earlier width height depth inputBuffer {0, 1, 2} p s)"


definition labels_inv ::
    "nat \<Rightarrow> nat \<Rightarrow> nat \<Rightarrow> 't list \<Rightarrow> 't \<Rightarrow> 'u::len word \<Rightarrow> 'u word Set_node list \<Rightarrow>
     voxel set \<Rightarrow> ('t, 'u word) labelling \<Rightarrow> bool" where
  "labels_inv width height depth inputBuffer backgroundColor backgroundLabel comps0 A st \<longleftrightarrow>
     forest (components st) \<and>
     length (components st) = width * height * depth \<and>
     length (outputBuffer st) = width * height * depth \<and>
     (\<forall>j r. root_of (components st) j r \<longleftrightarrow> root_of comps0 j r) \<and>
     nextLabel st \<noteq> backgroundLabel \<and>
     length (statistics st) = unat (nextLabel st) \<and>
     (\<forall>j < width * height * depth. hasLabel (components st ! j) \<longrightarrow>
        label (components st ! j) \<noteq> backgroundLabel \<and>
        unat (label (components st ! j)) < unat (nextLabel st)) \<and>
     (\<forall>i < width * height * depth. \<forall>j < width * height * depth.
        hasLabel (components st ! i) \<and> hasLabel (components st ! j) \<and>
        label (components st ! i) = label (components st ! j) \<longrightarrow> i = j) \<and>
     A \<subseteq> {p. in_volume width height depth p} \<and>
     (\<forall>p \<in> A. inputBuffer ! voxel_at width height p = backgroundColor \<longrightarrow>
        outputBuffer st ! voxel_at width height p = backgroundLabel) \<and>
     (\<forall>p \<in> A. inputBuffer ! voxel_at width height p \<noteq> backgroundColor \<longrightarrow>
        (\<exists>r. root_of (components st) (voxel_at width height p) r \<and> hasLabel (components st ! r) \<and>
             outputBuffer st ! voxel_at width height p = label (components st ! r))) \<and>
     (\<forall>m. m < unat (nextLabel st) \<and> m \<noteq> unat backgroundLabel \<longrightarrow>
        (\<exists>p \<in> A. unat (outputBuffer st ! voxel_at width height p) = m)) \<and>
     (unat backgroundLabel < unat (nextLabel st) \<longrightarrow>
        inputLabel (statistics st ! unat backgroundLabel) = backgroundColor)"

definition counts_inv ::
    "nat \<Rightarrow> nat \<Rightarrow> nat \<Rightarrow> 't list \<Rightarrow> 't \<Rightarrow> 'u::len word \<Rightarrow> voxel set \<Rightarrow>
     ('t, 'u word) labelling \<Rightarrow> bool" where
  "counts_inv width height depth inputBuffer backgroundColor backgroundLabel A st \<longleftrightarrow>
     (width * height * depth < 2 ^ 32 \<longrightarrow>
        sum_list (map (\<lambda>e. unat (pixelCount e)) (statistics st)) = card A) \<and>
     ((\<exists>p \<in> A. inputBuffer ! voxel_at width height p = backgroundColor) \<longrightarrow>
        unat backgroundLabel < unat (nextLabel st))"

section \<open>Convolution\<close>

text \<open>
  Single-precision values are modelled by the numbers they denote. The convolver itself only
  adds and multiplies them, so it is written for any type with \<open>0\<close>, \<open>+\<close> and \<open>*\<close>; the pixel
  codecs and the concrete evaluations use \<open>real\<close>, where every operation is exact. Buffers are
  lists of pixels, and \<open>hop\<close>, \<open>stride\<close> and \<open>leap\<close> count pixels rather than bytes. The rows of
  a slice, which the source hands to OpenMP threads, are processed one after the other; the
  scratch row starts zeroed, as a fresh \<open>std::vector<float>\<close> does.
\<close>

definition truncate_toward_zero :: "real \<Rightarrow> int" where
  "truncate_toward_zero x = (if 0 \<le> x then \<lfloor>x\<rfloor> else \<lceil>x\<rceil>)"

definition writerT_float :: "real \<Rightarrow> real" where
  "writerT_float x = x"

definition readerT_float :: "real \<Rightarrow> real" where
  "readerT_float p = p"

definition writerT_uchar :: "real \<Rightarrow> 8 word" where
  "writerT_uchar x =
     (if x \<le> 0 then 0 else if x > 255 then 255 else word_of_int (truncate_toward_zero (x + 0.5)))"

definition readerT_uchar :: "8 word \<Rightarrow> real" where
  "readerT_uchar p = real (unat p)"

definition writerT_short :: "real \<Rightarrow> 16 word" where
  "writerT_short x =
     (let minimum = - 32768 :: int; maximum = 32767 :: int in
      if x \<le> real_of_int minimum then word_of_int minimum
      else if x > real_of_int maximum then word_of_int maximum
      else word_of_int (truncate_toward_zero (x + 0.5)))"

definition readerT_short :: "16 word \<Rightarrow> real" where
  "readerT_short p = real_of_int (sint p)"

definition convolve_reference ::
    "'f::{zero,plus,times} list \<Rightarrow> nat \<Rightarrow> 'f list \<Rightarrow> nat \<Rightarrow> 'f list" where
  "convolve_reference input width kernel' kernelRadius =
     map (\<lambda>u. foldl (\<lambda>sum k. sum + kernel' ! k * input ! (u + k)) 0 [0..<2 * kernelRadius + 1])
       [0..<width - 2 * kernelRadius]"

definition read_row :: "('p \<Rightarrow> 'f) \<Rightarrow> 'p list \<Rightarrow> nat \<Rightarrow> nat \<Rightarrow> nat \<Rightarrow> 'f list" where
  "read_row Reader buffer start hop width =
     map (\<lambda>u. Reader (buffer ! (start + u * hop))) [0..<width]"

definition mirror_edges :: "nat \<Rightarrow> nat \<Rightarrow> 'f list \<Rightarrow> 'f list" where
  "mirror_edges kernelRadius width inputRow =
     fold (\<lambda>u t.
        (let t1 = t[kernelRadius - 1 - u := t ! (kernelRadius + u)]
         in t1[kernelRadius + width + u := t1 ! (kernelRadius + width - 1 - u)]))
       [0..<kernelRadius] inputRow"

definition write_row :: "('f \<Rightarrow> 'p) \<Rightarrow> 'f list \<Rightarrow> nat \<Rightarrow> nat \<Rightarrow> nat \<Rightarrow> 'p list \<Rightarrow> 'p list" where
  "write_row Writer outputRow start hop width buffer =
     fold (\<lambda>u b. b[start + u * hop := Writer (outputRow ! u)]) [0..<width] buffer"

definition padded_row ::
    "('p \<Rightarrow> 'f::{zero,plus,times}) \<Rightarrow> 'p list \<Rightarrow> nat \<Rightarrow> nat \<Rightarrow> nat \<Rightarrow> nat \<Rightarrow> 'f list" where
  "padded_row Reader buffer start hop width kernelRadius =
     mirror_edges kernelRadius width
       (replicate kernelRadius 0 @ read_row Reader buffer start hop width @ replicate kernelRadius 0)"

definition convolve ::
    "('p \<Rightarrow> 'f::{zero,plus,times}) \<Rightarrow> ('f \<Rightarrow> 'p) \<Rightarrow> nat \<Rightarrow> nat \<Rightarrow> 'p list \<Rightarrow> nat \<Rightarrow>
     nat \<Rightarrow> nat \<Rightarrow> 'f list \<Rightarrow> nat \<Rightarrow> 'p list" where
  "convolve Reader Writer width height buffer base hop stride kernel' kernelRadius =
     fold (\<lambda>v b.
        (let inputRow = padded_row Reader b (base + v * stride) hop width kernelRadius;
             outputRow = convolve_reference inputRow (width + 2 * kernelRadius) kernel' kernelRadius
         in write_row Writer outputRow (base + v * stride) hop width b))
       [0..<height] buffer"

definition convolve1d ::
    "('p \<Rightarrow> 'f::{zero,plus,times}) \<Rightarrow> ('f \<Rightarrow> 'p) \<Rightarrow> nat \<Rightarrow> nat \<Rightarrow> nat \<Rightarrow> 'p list \<Rightarrow>
     nat \<Rightarrow> nat \<Rightarrow> nat \<Rightarrow> int \<Rightarrow> 'f list \<Rightarrow> nat \<Rightarrow> error + 'p list" where
  "convolve1d Reader Writer width height depth buffer leap stride hop direction kernel' kernelWidth =
     (if direction = 0 then
        Inr (fold (\<lambda>z b. convolve Reader Writer width height b (z * leap) hop stride kernel' kernelWidth)
               [0..<depth] buffer)
      else if direction = 1 then
        Inr (fold (\<lambda>z b. convolve Reader Writer height width b (z * leap) stride hop kernel' kernelWidth)
               [0..<depth] buffer)
      else if direction = 2 then
        Inr (fold (\<lambda>y b. convolve Reader Writer depth width b (y * stride) leap hop kernel' kernelWidth)
               [0..<height] buffer)
      else Inl InvalidArgument)"




section \<open>Gaussian kernel\<close>

text \<open>
  The kernel builder divides, and takes logarithms and square roots, so its model keeps the
  exceptional values of IEEE 754 arithmetic: a value is a finite number, an infinity or NaN, and
  every operation treats the exceptional cases as the standard prescribes (without signed
  zeros). Finite results are the exact ones; rounding and overflow are not represented.
\<close>

datatype fvalue = Finite real | PosInf | NegInf | NaN

definition signed_inf :: "real \<Rightarrow> fvalue" where
  "signed_inf s = (if s = 0 then NaN else if 0 < s then PosInf else NegInf)"

fun fsign :: "fvalue \<Rightarrow> real" where
  "fsign (Finite x) = sgn x"
| "fsign PosInf = 1"
| "fsign NegInf = - 1"
| "fsign NaN = 0"

fun fneg :: "fvalue \<Rightarrow> fvalue" where
  "fneg (Finite x) = Finite (- x)"
| "fneg PosInf = NegInf"
| "fneg NegInf = PosInf"
| "fneg NaN = NaN"

fun fless :: "fvalue \<Rightarrow> fvalue \<Rightarrow> bool" where
  "fless NaN b = False"
| "fless a NaN = False"
| "fless (Finite x) (Finite y) = (x < y)"
| "fless (Finite x) PosInf = True"
| "fless (Finite x) NegInf = False"
| "fless PosInf b = False"
| "fless NegInf NegInf = False"
| "fless NegInf b = True"

fun fmul :: "fvalue \<Rightarrow> fvalue \<Rightarrow> fvalue" where
  "fmul NaN b = NaN"
| "fmul a NaN = NaN"
| "fmul (Finite x) (Finite y) = Finite (x * y)"
| "fmul a b = signed_inf (fsign a * fsign b)"

fun fdiv :: "fvalue \<Rightarrow> fvalue \<Rightarrow> fvalue" where
  "fdiv NaN b = NaN"
| "fdiv a NaN = NaN"
| "fdiv (Finite x) (Finite y) = (if y = 0 then signed_inf (sgn x) else Finite (x / y))"
| "fdiv (Finite x) b = Finite 0"
| "fdiv a (Finite y) = signed_inf (fsign a * (if y < 0 then - 1 else 1))"
| "fdiv a b = NaN"

fun flog :: "fvalue \<Rightarrow> fvalue" where
  "flog (Finite x) = (if 0 < x then Finite (ln x) else if x = 0 then NegInf else NaN)"
| "flog PosInf = PosInf"
| "flog NegInf = NaN"
| "flog NaN = NaN"

fun fsqrt :: "fvalue \<Rightarrow> fvalue" where
  "fsqrt (Finite x) = (if 0 \<le> x then Finite (sqrt x) else NaN)"
| "fsqrt PosInf = PosInf"
| "fsqrt NegInf = NaN"
| "fsqrt NaN = NaN"

fun fexp :: "fvalue \<Rightarrow> fvalue" where
  "fexp (Finite x) = Finite (exp x)"
| "fexp PosInf = PosInf"
| "fexp NegInf = Finite 0"
| "fexp NaN = NaN"

fun fpow2 :: "fvalue \<Rightarrow> fvalue" where
  "fpow2 (Finite x) = Finite (x ^ 2)"
| "fpow2 PosInf = PosInf"
| "fpow2 NegInf = PosInf"
| "fpow2 NaN = NaN"

fun ffloor :: "fvalue \<Rightarrow> fvalue" where
  "ffloor (Finite x) = Finite (real_of_int \<lfloor>x\<rfloor>)"
| "ffloor a = a"

fun to_int :: "fvalue \<Rightarrow> int option" where
  "to_int (Finite x) =
     (if - 2147483648 \<le> truncate_toward_zero x \<and> truncate_toward_zero x \<le> 2147483647
      then Some (truncate_toward_zero x) else None)"
| "to_int a = None"

record GaussianKernel1D_state =
  radius :: int
  data :: "fvalue list"

definition PACKAGE_PI :: fvalue where
  "PACKAGE_PI = Finite 3.141592"

definition GaussianKernel1D :: "fvalue \<Rightarrow> fvalue \<Rightarrow> error + GaussianKernel1D_state" where
  "GaussianKernel1D sigma0 tol0 =
     (let sigma = (if fless sigma0 (Finite 0) then fneg sigma0 else sigma0);
          tol = (if fless tol0 (Finite 0) then fneg tol0 else tol0)
      in case to_int (ffloor (fmul sigma (fsqrt (fmul (Finite 2) (flog (fdiv (Finite 1) tol)))))) of
           None \<Rightarrow> Inl UndefinedBehaviour
         | Some r \<Rightarrow>
             if r < 0 then Inl UndefinedBehaviour
             else Inr \<lparr>radius = r,
                       data = map (\<lambda>x.
                          fmul (fdiv (Finite 1) (fmul sigma (fsqrt (fmul (Finite 2) PACKAGE_PI))))
                               (fexp (fmul (Finite (- 0.5)) (fpow2 (fdiv (Finite (real_of_int x)) sigma)))))
                          [- r..r]\<rparr>)"

section \<open>Properties of the disjoint-set forest\<close>

subsection \<open>Roots and path compression\<close>

lemma forestD:
  "forest s \<Longrightarrow> i < length s \<Longrightarrow> parent (s ! i) = Some p \<Longrightarrow> p < length s \<and> rank (s ! i) < rank (s ! p)"
  by (simp add: forest_def)

lemma root_of_bounds: "root_of s i r \<Longrightarrow> i < length s \<and> r < length s"
  by (induction rule: root_of.induct) auto

lemma root_of_is_root: "root_of s i r \<Longrightarrow> parent (s ! r) = None"
  by (induction rule: root_of.induct) auto

lemma root_of_unique: "root_of s i r \<Longrightarrow> root_of s i r' \<Longrightarrow> r' = r"
proof (induction arbitrary: r' rule: root_of.induct)
  case (root_self i)
  then show ?case by (auto elim: root_of.cases)
next
  case (root_step i p r)
  from root_step.prems root_step.hyps(2) have "root_of s p r'"
    by (auto elim: root_of.cases)
  then show ?case by (rule root_step.IH)
qed

lemma root_of_root: "root_of s r r' \<Longrightarrow> parent (s ! r) = None \<Longrightarrow> r' = r"
  by (auto elim: root_of.cases)

lemma root_of_rank_le:
  "root_of s i r \<Longrightarrow> forest s \<Longrightarrow> rank (s ! i) \<le> rank (s ! r)"
proof (induction rule: root_of.induct)
  case (root_self i)
  then show ?case by simp
next
  case (root_step i p r)
  then have "rank (s ! i) < rank (s ! p)" by (auto dest: forestD)
  with root_step show ?case by simp
qed

lemma root_of_rank_less:
  "forest s \<Longrightarrow> root_of s i r \<Longrightarrow> i \<noteq> r \<Longrightarrow> rank (s ! i) < rank (s ! r)"
proof (erule root_of.cases, goal_cases)
  case (1 j)
  then show ?case by simp
next
  case (2 j p r')
  then have "rank (s ! i) < rank (s ! p)" by (auto dest: forestD)
  moreover from 2 have "rank (s ! p) \<le> rank (s ! r)" by (auto intro: root_of_rank_le)
  ultimately show ?case by simp
qed

lemma root_of_exists:
  "forest s \<Longrightarrow> i < length s \<Longrightarrow> \<exists>r. root_of s i r"
proof (induction "65536 - unat (rank (s ! i))" arbitrary: i rule: less_induct)
  case less
  show ?case
  proof (cases "parent (s ! i)")
    case None
    with less.prems show ?thesis by (auto intro: root_self)
  next
    case (Some p)
    with less.prems have p: "p < length s" "rank (s ! i) < rank (s ! p)"
      by (auto dest: forestD)
    have "unat (rank (s ! p)) < 65536" using unsigned_less[of "rank (s ! p)", where 'a=nat] by simp
    with p have "65536 - unat (rank (s ! p)) < 65536 - unat (rank (s ! i))"
      by (simp add: word_less_nat_alt)
    from less.hyps[OF this less.prems(1) p(1)] obtain r where "root_of s p r" ..
    with Some less.prems show ?thesis by (auto intro: root_step)
  qed
qed


lemma root_of_parents_cong:
  assumes "root_of s i r" "length s' = length s"
    and "\<And>j. j < length s \<Longrightarrow> parent (s' ! j) = parent (s ! j)"
  shows "root_of s' i r"
  using assms(1)
proof (induction rule: root_of.induct)
  case (root_self i)
  then show ?case using assms(2,3) by (auto intro: root_of.root_self)
next
  case (root_step i p r)
  then show ?case using assms(2,3) by (auto intro: root_of.root_step)
qed

lemma root_of_not_root:
  "root_of s k r \<Longrightarrow> k \<noteq> r \<Longrightarrow> \<exists>p. parent (s ! k) = Some p"
  by (auto elim: root_of.cases)

lemma compress_root_of_new:
  assumes k: "root_of s k r" "k \<noteq> r"
    and s': "s' = s[k := (s ! k)\<lparr>parent := Some r\<rparr>]"
    and j: "root_of s j r'"
  shows "root_of s' j r'"
  using j
proof (induction rule: root_of.induct)
  case (root_self i)
  from k obtain p where "parent (s ! k) = Some p" by (auto dest: root_of_not_root)
  with root_self have "i \<noteq> k" by auto
  with root_self show ?case by (auto simp: s' intro: root_of.root_self)
next
  case (root_step i p q)
  show ?case
  proof (cases "i = k")
    case True
    with root_step have "root_of s k q" by (auto intro: root_of.root_step)
    with k have q: "q = r" by (auto dest: root_of_unique)
    have "parent (s ! r) = None" using k by (auto dest: root_of_is_root)
    moreover have "r < length s" using k by (auto dest: root_of_bounds)
    ultimately have "root_of s' r r" using k by (auto simp: s' intro: root_of.root_self)
    moreover have "parent (s' ! k) = Some r" "k < length s'" using root_step True by (auto simp: s')
    ultimately show ?thesis using True q by (auto intro: root_of.root_step)
  next
    case False
    with root_step have "parent (s' ! i) = Some p" "i < length s'" by (auto simp: s')
    with root_step.IH show ?thesis by (auto intro: root_of.root_step)
  qed
qed

lemma compress_root_of_old:
  assumes k: "root_of s k r" "k \<noteq> r"
    and s': "s' = s[k := (s ! k)\<lparr>parent := Some r\<rparr>]"
    and j: "root_of s' j r'"
  shows "root_of s j r'"
  using j
proof (induction rule: root_of.induct)
  case (root_self i)
  have "k < length s" using k by (auto dest: root_of_bounds)
  with root_self have "i \<noteq> k" by (auto simp: s')
  with root_self show ?case by (auto simp: s' intro: root_of.root_self)
next
  case (root_step i p q)
  show ?case
  proof (cases "i = k")
    case True
    with root_step have "p = r" by (auto simp: s')
    with root_step.IH have "root_of s r q" by simp
    moreover have "parent (s ! r) = None" using k by (auto dest: root_of_is_root)
    ultimately have "q = r" by (auto dest: root_of_root)
    with k True show ?thesis by simp
  next
    case False
    with root_step have "parent (s ! i) = Some p" "i < length s" by (auto simp: s')
    with root_step.IH show ?thesis by (auto intro: root_of.root_step)
  qed
qed

lemma compress_root_of:
  assumes "root_of s k r" "k \<noteq> r" "s' = s[k := (s ! k)\<lparr>parent := Some r\<rparr>]"
  shows "root_of s' j r' \<longleftrightarrow> root_of s j r'"
  using compress_root_of_new[OF assms] compress_root_of_old[OF assms] by blast

lemma compress_forest:
  assumes f: "forest s" and k: "root_of s k r" "k \<noteq> r"
    and s': "s' = s[k := (s ! k)\<lparr>parent := Some r\<rparr>]"
  shows "forest s'"
  unfolding forest_def
proof (intro allI impI)
  fix i p assume i: "i < length s'" and par: "parent (s' ! i) = Some p"
  have rk: "rank (s' ! j) = rank (s ! j)" for j
    by (cases "j = k"; cases "k < length s") (auto simp: s' list_update_beyond)
  show "p < length s' \<and> rank (s' ! i) < rank (s' ! p)"
  proof (cases "i = k")
    case True
    with i par have "p = r" by (simp add: s')
    moreover have "r < length s" "k < length s" using k by (auto dest: root_of_bounds)
    moreover have "rank (s ! k) < rank (s ! r)" using f k by (rule root_of_rank_less)
    ultimately show ?thesis using True by (simp add: rk) (simp add: s')
  next
    case False
    with i par have "parent (s ! i) = Some p" "i < length s" by (auto simp: s')
    with f have "p < length s" "rank (s ! i) < rank (s ! p)" by (auto dest: forestD)
    with \<open>i < length s\<close> show ?thesis by (simp add: rk) (simp add: s')
  qed
qed


lemma on_chain_bounds: "on_chain s i k \<Longrightarrow> i < length s \<and> k < length s"
  by (induction rule: on_chain.induct) auto

lemma Set_find_correct:
  "forest s \<Longrightarrow> i < length s \<Longrightarrow> \<exists>r s'. Set_find s i = Some (r, s') \<and> find_post s i r s'"
proof (induction "65536 - unat (rank (s ! i))" arbitrary: i rule: less_induct)
  case less
  show ?case
  proof (cases "parent (s ! i)")
    case None
    have "Set_find s i = Some (i, s)"
      using None less.prems by (subst Set_find.simps) simp
    moreover have "\<not> on_chain s i k" for k
      using None by (auto elim: on_chain.cases)
    ultimately show ?thesis
      using None less.prems by (auto simp: find_post_def intro: root_self)
  next
    case (Some p)
    with less.prems have p: "p < length s" "rank (s ! i) < rank (s ! p)"
      by (auto dest: forestD)
    have "unat (rank (s ! p)) < 65536"
      using unsigned_less[of "rank (s ! p)", where 'a=nat] by simp
    with p have "65536 - unat (rank (s ! p)) < 65536 - unat (rank (s ! i))"
      by (simp add: word_less_nat_alt)
    from less.hyps[OF this less.prems(1) p(1)] obtain r s1 where
      f: "Set_find s p = Some (r, s1)" and post: "find_post s p r s1" by blast
    define s' where "s' = s1[i := (s1 ! i)\<lparr>parent := Some r\<rparr>]"
    have res: "Set_find s i = Some (r, s')"
      using Some less.prems f by (subst Set_find.simps) (simp add: s'_def)
    from post have pr: "root_of s p r" and len: "length s1 = length s" and f1: "forest s1"
      and eq: "\<And>j r'. root_of s1 j r' \<longleftrightarrow> root_of s j r'"
      and same: "\<And>j. j < length s \<Longrightarrow> rank (s1 ! j) = rank (s ! j) \<and>
           hasLabel (s1 ! j) = hasLabel (s ! j) \<and> label (s1 ! j) = label (s ! j)"
      and ch: "\<And>k. on_chain s p k \<Longrightarrow> parent (s1 ! k) = Some r"
      by (auto simp: find_post_def)
    have ir: "root_of s i r" using Some less.prems pr by (auto intro: root_step)
    have "parent (s ! r) = None" using pr by (rule root_of_is_root)
    with Some have ne: "i \<noteq> r" by auto
    have ir1: "root_of s1 i r" using ir eq by simp
    have fs': "forest s'" using f1 ir1 ne s'_def by (rule compress_forest)
    have eq': "root_of s' j r' \<longleftrightarrow> root_of s j r'" for j r'
      using compress_root_of[OF ir1 ne s'_def] eq by simp
    have same': "rank (s' ! j) = rank (s ! j) \<and> hasLabel (s' ! j) = hasLabel (s ! j)
          \<and> label (s' ! j) = label (s ! j)" if "j < length s" for j
      using same[OF that] same[OF less.prems(2)] len less.prems(2)
      by (cases "j = i") (auto simp: s'_def)
    have ch': "parent (s' ! k) = Some r" if "on_chain s i k" for k
    proof (cases "k = i")
      case True
      then show ?thesis using len less.prems(2) by (simp add: s'_def)
    next
      case False
      from that have "on_chain s p k"
        using False Some by (auto elim: on_chain.cases)
      then show ?thesis using ch False by (simp add: s'_def)
    qed
    have ex1: "s1 ! j = (if on_chain s p j then (s ! j)\<lparr>parent := Some r\<rparr> else s ! j)"
      if "j < length s" for j
      using post that by (simp add: find_post_def)
    have ex': "s' ! j = (if on_chain s i j then (s ! j)\<lparr>parent := Some r\<rparr> else s ! j)"
      if "j < length s" for j
    proof (cases "j = i")
      case True
      have "on_chain s i i" using Some less.prems(2) by (rule chain_here[rotated])
      moreover have "s' ! i = (s ! i)\<lparr>parent := Some r\<rparr>"
        using ex1[OF less.prems(2)] len less.prems(2) by (simp add: s'_def)
      ultimately show ?thesis using True by simp
    next
      case False
      have "on_chain s i j \<longleftrightarrow> on_chain s p j"
        using False Some less.prems(2) by (auto elim: on_chain.cases intro: chain_up)
      then show ?thesis using ex1[OF that] False by (simp add: s'_def)
    qed
    show ?thesis
      using res ir len fs' eq' same' ch' ex' unfolding find_post_def
      by (auto simp: s'_def)
  qed
qed


subsection \<open>Linking two roots\<close>

lemma link_root_of_new:
  assumes x: "xr < length s" "parent (s ! xr) = None"
    and y: "yr < length s" "parent (s ! yr) = None" and ne: "xr \<noteq> yr"
    and s': "s' = s[yr := (s ! yr)\<lparr>parent := Some xr\<rparr>]"
    and j: "root_of s j r"
  shows "root_of s' j (if r = yr then xr else r)"
  using j
proof (induction rule: root_of.induct)
  case (root_self i)
  have xx: "root_of s' xr xr" using x ne by (auto simp: s' intro: root_of.root_self)
  show ?case
  proof (cases "i = yr")
    case True
    have "parent (s' ! yr) = Some xr" "yr < length s'" using y by (auto simp: s')
    with xx True show ?thesis by (auto intro: root_of.root_step)
  next
    case False
    with root_self show ?thesis by (auto simp: s' intro: root_of.root_self)
  qed
next
  case (root_step i p r)
  with y have "i \<noteq> yr" by auto
  with root_step have "parent (s' ! i) = Some p" "i < length s'" by (auto simp: s')
  with root_step.IH show ?case by (auto intro: root_of.root_step)
qed

lemma link_root_of_old:
  assumes x: "xr < length s" "parent (s ! xr) = None"
    and y: "yr < length s" "parent (s ! yr) = None" and ne: "xr \<noteq> yr"
    and s': "s' = s[yr := (s ! yr)\<lparr>parent := Some xr\<rparr>]"
    and j: "root_of s' j r"
  shows "(root_of s j r \<and> r \<noteq> yr) \<or> (root_of s j yr \<and> r = xr)"
  using j
proof (induction rule: root_of.induct)
  case (root_self i)
  with y have "i \<noteq> yr" by (auto simp: s')
  with root_self show ?case by (auto simp: s' intro: root_of.root_self)
next
  case (root_step i p r)
  show ?case
  proof (cases "i = yr")
    case True
    with root_step y have "p = xr" by (auto simp: s')
    with root_step.IH x ne have "r = xr" by (auto dest: root_of_root)
    with True y show ?thesis by (auto intro: root_of.root_self)
  next
    case False
    with root_step have "parent (s ! i) = Some p" "i < length s" by (auto simp: s')
    with root_step.IH show ?thesis by (auto intro: root_of.root_step)
  qed
qed

lemma link_root_of:
  assumes "xr < length s" "parent (s ! xr) = None" "yr < length s" "parent (s ! yr) = None"
    "xr \<noteq> yr" "s' = s[yr := (s ! yr)\<lparr>parent := Some xr\<rparr>]"
  shows "root_of s' j r \<longleftrightarrow> (root_of s j r \<and> r \<noteq> yr) \<or> (root_of s j yr \<and> r = xr)"
proof
  assume "root_of s' j r"
  then show "(root_of s j r \<and> r \<noteq> yr) \<or> (root_of s j yr \<and> r = xr)"
    by (rule link_root_of_old[OF assms])
next
  assume "(root_of s j r \<and> r \<noteq> yr) \<or> (root_of s j yr \<and> r = xr)"
  then show "root_of s' j r"
    using link_root_of_new[OF assms, of j r] link_root_of_new[OF assms, of j yr] by auto
qed

lemma link_forest:
  assumes f: "forest s" and x: "xr < length s" and y: "yr < length s" "parent (s ! yr) = None"
    and rk: "rank (s ! yr) < rank (s ! xr)"
    and s': "s' = s[yr := (s ! yr)\<lparr>parent := Some xr\<rparr>]"
  shows "forest s'"
  unfolding forest_def
proof (intro allI impI)
  fix i p assume i: "i < length s'" and par: "parent (s' ! i) = Some p"
  have rks: "rank (s' ! j) = rank (s ! j)" for j
    by (cases "j = yr"; cases "yr < length s") (auto simp: s' list_update_beyond)
  show "p < length s' \<and> rank (s' ! i) < rank (s' ! p)"
  proof (cases "i = yr")
    case True
    with i par have "p = xr" by (simp add: s')
    with x rk True show ?thesis by (simp add: rks) (simp add: s')
  next
    case False
    with i par have "parent (s ! i) = Some p" "i < length s" by (auto simp: s')
    with f have "p < length s" "rank (s ! i) < rank (s ! p)" by (auto dest: forestD)
    then show ?thesis by (simp add: rks) (simp add: s')
  qed
qed

lemma unat_succ: "(x :: 'a::len word) \<noteq> - 1 \<Longrightarrow> unat (x + 1) = Suc (unat x)"
  using unatSuc[of x] max_word_wrap[of x] by (auto simp: add.commute)

lemma word16_less_succ: "(x :: 16 word) \<noteq> 65535 \<Longrightarrow> x < x + 1"
proof -
  assume "x \<noteq> 65535"
  moreover have "(65535 :: 16 word) = - 1" by simp
  ultimately have "x \<noteq> - 1" by simp
  then show ?thesis using unat_succ[of x] by (simp add: word_less_nat_alt)
qed

lemma rank_bump_forest:
  assumes f: "forest s" and x: "xr < length s" "parent (s ! xr) = None"
    and nmax: "rank (s ! xr) \<noteq> 65535"
    and s': "s' = s[xr := (s ! xr)\<lparr>rank := rank (s ! xr) + 1\<rparr>]"
  shows "forest s'"
  unfolding forest_def
proof (intro allI impI)
  fix i p assume i: "i < length s'" and par: "parent (s' ! i) = Some p"
  have pars: "parent (s' ! j) = parent (s ! j)" for j
    by (cases "j = xr"; cases "xr < length s") (auto simp: s' list_update_beyond)
  have len: "length s' = length s" by (simp add: s')
  from par have pi: "parent (s ! i) = Some p" by (simp add: pars)
  with x have ne: "i \<noteq> xr" by auto
  from f pi i len have p: "p < length s" "rank (s ! i) < rank (s ! p)" by (auto dest: forestD)
  have ri: "rank (s' ! i) = rank (s ! i)" using ne by (simp add: s')
  have "rank (s ! p) \<le> rank (s' ! p)"
    using word16_less_succ[OF nmax] x by (cases "p = xr") (auto simp: s')
  with p ri len show "p < length s' \<and> rank (s' ! i) < rank (s' ! p)" by simp
qed

lemma same_set_root: "root_of s x xr \<Longrightarrow> same_set s i x \<longleftrightarrow> root_of s i xr"
  by (auto simp: same_set_def dest: root_of_unique)

lemma same_set_sym: "same_set s i j \<Longrightarrow> same_set s j i"
  by (auto simp: same_set_def)

lemma same_set_trans: "same_set s i j \<Longrightarrow> same_set s j k \<Longrightarrow> same_set s i k"
  by (auto simp: same_set_def dest: root_of_unique)

lemma same_set_refl: "forest s \<Longrightarrow> i < length s \<Longrightarrow> same_set s i i"
  by (auto simp: same_set_def dest: root_of_exists)

lemma same_set_cong:
  "(\<And>j r. root_of s' j r \<longleftrightarrow> root_of s j r) \<Longrightarrow> same_set s' i j \<longleftrightarrow> same_set s i j"
  by (simp add: same_set_def)

lemma link_same_set:
  assumes rel: "\<And>j r. root_of s' j r \<longleftrightarrow> (root_of s j r \<and> r \<noteq> yr) \<or> (root_of s j yr \<and> r = xr)"
    and x: "root_of s x xr" and y: "root_of s y yr" and ne: "xr \<noteq> yr"
  shows "same_set s' i j \<longleftrightarrow>
     same_set s i j \<or> (same_set s i x \<and> same_set s y j) \<or> (same_set s i y \<and> same_set s x j)"
proof -
  have a: "same_set s i x \<longleftrightarrow> root_of s i xr" "same_set s x j \<longleftrightarrow> root_of s j xr"
    using same_set_root[OF x] same_set_sym by blast+
  have b: "same_set s i y \<longleftrightarrow> root_of s i yr" "same_set s y j \<longleftrightarrow> root_of s j yr"
    using same_set_root[OF y] same_set_sym by blast+
  show ?thesis
    unfolding a b unfolding same_set_def rel
    using ne by (auto dest: root_of_unique)
qed

subsection \<open>The union step\<close>

lemma Set_unite_eq_spec: "Set_unite s x y = unite_spec s x y"
proof (cases "Set_find s x")
  case None
  then show ?thesis by (simp add: Set_unite_def unite_spec_def)
next
  case (Some a)
  obtain xr s1 where a: "a = (xr, s1)" by (cases a)
  show ?thesis
  proof (cases "Set_find s1 y")
    case None
    then show ?thesis using Some a by (simp add: Set_unite_def unite_spec_def)
  next
    case (Some b)
    obtain yr s2 where b: "b = (yr, s2)" by (cases b)
    show ?thesis
      using \<open>Set_find s x = Some a\<close> a Some b
      by (auto simp: Set_unite_def unite_spec_def Let_def)
  qed
qed

lemma Set_unite_correct:
  assumes f: "forest s" and x: "x < length s" and y: "y < length s"
  shows "Set_unite s x y = Some (Inl GraphOverflow) \<or>
         (\<exists>s'. Set_unite s x y = Some (Inr s') \<and> unite_post s x y s')"
proof -
  from Set_find_correct[OF f x] obtain xr s1 where
    fx: "Set_find s x = Some (xr, s1)" and px: "find_post s x xr s1" by blast
  from px have f1: "forest s1" and len1: "length s1 = length s"
    and eq1: "\<And>j r. root_of s1 j r \<longleftrightarrow> root_of s j r"
    and keep1: "\<And>j. j < length s \<Longrightarrow> rank (s1 ! j) = rank (s ! j) \<and>
        hasLabel (s1 ! j) = hasLabel (s ! j) \<and> label (s1 ! j) = label (s ! j)"
    and rx: "root_of s x xr"
    by (auto simp: find_post_def)
  from y len1 have "y < length s1" by simp
  from Set_find_correct[OF f1 this] obtain yr s2 where
    fy: "Set_find s1 y = Some (yr, s2)" and py: "find_post s1 y yr s2" by blast
  from py have f2: "forest s2" and len2: "length s2 = length s"
    and eq2: "\<And>j r. root_of s2 j r \<longleftrightarrow> root_of s j r"
    and keep2: "\<And>j. j < length s \<Longrightarrow> rank (s2 ! j) = rank (s ! j) \<and>
        hasLabel (s2 ! j) = hasLabel (s ! j) \<and> label (s2 ! j) = label (s ! j)"
    and ry: "root_of s y yr"
    using len1 eq1 keep1 by (auto simp: find_post_def)
  have rx2: "root_of s2 x xr" and ry2: "root_of s2 y yr" using rx ry eq2 by auto
  have xr: "xr < length s2" "parent (s2 ! xr) = None"
    using rx2 by (auto dest: root_of_bounds root_of_is_root)
  have yr: "yr < length s2" "parent (s2 ! yr) = None"
    using ry2 by (auto dest: root_of_bounds root_of_is_root)
  have ss2: "same_set s2 i j \<longleftrightarrow> same_set s i j" for i j
    using eq2 by (simp add: same_set_def)
  note defs = Set_unite_eq_spec unite_spec_def fx fy
  show ?thesis
  proof (cases "xr = yr")
    case True
    have xy: "same_set s x y" using rx ry True by (auto simp: same_set_def)
    have "same_set s i j" if "(same_set s i x \<and> same_set s y j) \<or> (same_set s i y \<and> same_set s x j)" for i j
      using that xy by (meson same_set_trans same_set_sym)
    then have "same_set s2 i j \<longleftrightarrow> same_set s i j \<or> (same_set s i x \<and> same_set s y j)
            \<or> (same_set s i y \<and> same_set s x j)" for i j
      unfolding ss2 by blast
    moreover have "rank (s ! j) \<le> rank (s2 ! j) \<and> hasLabel (s2 ! j) = hasLabel (s ! j)
          \<and> label (s2 ! j) = label (s ! j)" if "j < length s" for j
      using keep2[OF that] by simp
    ultimately have "unite_post s x y s2"
      using f2 len2 unfolding unite_post_def by blast
    then show ?thesis using True by (simp add: defs)
  next
    case ne: False
    show ?thesis
    proof (cases "rank (s2 ! xr) < rank (s2 ! yr)")
      case True
      define s' where "s' = s2[xr := (s2 ! xr)\<lparr>parent := Some yr\<rparr>]"
      have res: "Set_unite s x y = Some (Inr s')" using ne True by (simp add: defs s'_def)
      have fs': "forest s'" using f2 yr(1) xr True s'_def by (rule link_forest)
      have rel: "root_of s' j r \<longleftrightarrow> (root_of s2 j r \<and> r \<noteq> xr) \<or> (root_of s2 j xr \<and> r = yr)" for j r
        using link_root_of[OF yr xr _ s'_def] ne by auto
      have "same_set s' i j \<longleftrightarrow> same_set s2 i j \<or> (same_set s2 i y \<and> same_set s2 x j)
            \<or> (same_set s2 i x \<and> same_set s2 y j)" for i j
        using link_same_set[OF rel ry2 rx2] ne by auto
      then have ss: "same_set s' i j \<longleftrightarrow> same_set s i j \<or> (same_set s i x \<and> same_set s y j)
            \<or> (same_set s i y \<and> same_set s x j)" for i j
        unfolding ss2 by auto
      have keep: "rank (s ! j) \<le> rank (s' ! j) \<and> hasLabel (s' ! j) = hasLabel (s ! j)
          \<and> label (s' ! j) = label (s ! j)" if "j < length s" for j
        using keep2[OF that] xr(1) by (cases "j = xr") (auto simp: s'_def)
      show ?thesis using res fs' ss keep len2 by (auto simp: unite_post_def s'_def)
    next
      case nlt: False
      define s3 where "s3 = s2[yr := (s2 ! yr)\<lparr>parent := Some xr\<rparr>]"
      have rel: "root_of s3 j r \<longleftrightarrow> (root_of s2 j r \<and> r \<noteq> yr) \<or> (root_of s2 j yr \<and> r = xr)" for j r
        using link_root_of[OF xr yr ne s3_def] by auto
      have "same_set s3 i j \<longleftrightarrow> same_set s2 i j \<or> (same_set s2 i x \<and> same_set s2 y j)
            \<or> (same_set s2 i y \<and> same_set s2 x j)" for i j
        using link_same_set[OF rel rx2 ry2 ne] by auto
      then have ss3: "same_set s3 i j \<longleftrightarrow> same_set s i j \<or> (same_set s i x \<and> same_set s y j)
            \<or> (same_set s i y \<and> same_set s x j)" for i j
        unfolding ss2 by auto
      have keep3: "rank (s3 ! j) = rank (s ! j) \<and> hasLabel (s3 ! j) = hasLabel (s ! j)
          \<and> label (s3 ! j) = label (s ! j)" if "j < length s" for j
        using keep2[OF that] yr(1) by (cases "j = yr") (auto simp: s3_def)
      have len3: "length s3 = length s" using len2 by (simp add: s3_def)
      show ?thesis
      proof (cases "rank (s2 ! yr) < rank (s2 ! xr)")
        case True
        have res: "Set_unite s x y = Some (Inr s3)" using ne nlt True by (simp add: defs s3_def)
        have "forest s3" using f2 xr(1) yr True s3_def by (rule link_forest)
        then show ?thesis using res ss3 keep3 len3 by (auto simp: unite_post_def)
      next
        case False
        with nlt have req: "rank (s2 ! yr) = rank (s2 ! xr)" by simp
        show ?thesis
        proof (cases "rank (s2 ! xr) = 65535")
          case True
          then show ?thesis using ne nlt False by (simp add: defs)
        next
          case nmax: False
          define s4 where "s4 = s2[xr := (s2 ! xr)\<lparr>rank := rank (s2 ! xr) + 1\<rparr>]"
          define s' where "s' = s4[yr := (s4 ! yr)\<lparr>parent := Some xr\<rparr>]"
          have s'_alt: "s' = s3[xr := (s2 ! xr)\<lparr>rank := rank (s2 ! xr) + 1\<rparr>]"
            using ne by (simp add: s'_def s4_def s3_def list_update_swap)
          have res: "Set_unite s x y = Some (Inr s')"
            using ne nlt False nmax by (simp add: defs s'_alt s3_def)
          have f4: "forest s4" using f2 xr nmax s4_def by (rule rank_bump_forest)
          have "rank (s4 ! yr) < rank (s4 ! xr)"
            using word16_less_succ[OF nmax] req xr(1) ne by (simp add: s4_def)
          moreover have "xr < length s4" "yr < length s4" "parent (s4 ! yr) = None"
            using xr yr ne by (auto simp: s4_def)
          ultimately have fs': "forest s'" using f4 s'_def by (auto intro: link_forest)
          have "root_of s' j r \<longleftrightarrow> root_of s3 j r" for j r
          proof -
            have "length s' = length s3" by (simp add: s'_alt)
            moreover have "parent (s' ! j) = parent (s3 ! j)" for j
              using ne yr(1) xr(1)
              by (cases "j = xr"; cases "j = yr") (auto simp: s'_alt s3_def)
            ultimately show ?thesis
              using root_of_parents_cong[of s3 j r s'] root_of_parents_cong[of s' j r s3]
              by auto
          qed
          then have ss: "same_set s' i j \<longleftrightarrow> same_set s3 i j" for i j
            by (simp add: same_set_def)
          have keep: "rank (s ! j) \<le> rank (s' ! j) \<and> hasLabel (s' ! j) = hasLabel (s ! j)
              \<and> label (s' ! j) = label (s ! j)" if "j < length s" for j
            using keep3[OF that] keep2[OF that] word16_less_succ[OF nmax] that len3 ne yr(1) len2
            by (cases "j = xr") (auto simp: s'_alt s3_def)
          show ?thesis using res fs' ss ss3 keep len3
            by (auto simp: unite_post_def s'_alt)
        qed
      qed
    qed
  qed
qed

text \<open>The union step read off the roots of the forest it is given.\<close>

lemma Set_unite_roots:
  assumes f: "forest s" and x: "x < length s" and y: "y < length s"
  shows "\<exists>xr yr s1 s2. Set_find s x = Some (xr, s1) \<and> Set_find s1 y = Some (yr, s2) \<and>
           find_post s x xr s1 \<and> find_post s1 y yr s2 \<and>
           root_of s x xr \<and> root_of s y yr \<and> forest s2 \<and> length s2 = length s \<and>
           (\<forall>j q. root_of s2 j q \<longleftrightarrow> root_of s j q) \<and>
           (\<forall>j < length s. rank (s2 ! j) = rank (s ! j) \<and> hasLabel (s2 ! j) = hasLabel (s ! j)
              \<and> label (s2 ! j) = label (s ! j)) \<and>
           Set_unite s x y =
             (if xr = yr then Some (Inr s2)
              else if rank (s ! xr) < rank (s ! yr) then
                Some (Inr (s2[xr := (s2 ! xr)\<lparr>parent := Some yr\<rparr>]))
              else if rank (s ! yr) < rank (s ! xr) then
                Some (Inr (s2[yr := (s2 ! yr)\<lparr>parent := Some xr\<rparr>]))
              else if rank (s ! xr) = 65535 then Some (Inl GraphOverflow)
              else Some (Inr (s2[yr := (s2 ! yr)\<lparr>parent := Some xr\<rparr>,
                                 xr := (s2 ! xr)\<lparr>rank := rank (s ! xr) + 1\<rparr>])))"
proof -
  from Set_find_correct[OF f x] obtain xr s1 where
    fx: "Set_find s x = Some (xr, s1)" and px: "find_post s x xr s1" by blast
  from px have f1: "forest s1" and len1: "length s1 = length s"
    and eq1: "\<And>j r. root_of s1 j r \<longleftrightarrow> root_of s j r"
    and keep1: "\<And>j. j < length s \<Longrightarrow> rank (s1 ! j) = rank (s ! j) \<and>
        hasLabel (s1 ! j) = hasLabel (s ! j) \<and> label (s1 ! j) = label (s ! j)"
    and rx: "root_of s x xr"
    by (auto simp: find_post_def)
  from y len1 have "y < length s1" by simp
  from Set_find_correct[OF f1 this] obtain yr s2 where
    fy: "Set_find s1 y = Some (yr, s2)" and py: "find_post s1 y yr s2" by blast
  from py have f2: "forest s2" and len2: "length s2 = length s"
    and eq2: "\<And>j r. root_of s2 j r \<longleftrightarrow> root_of s j r"
    and keep2: "\<And>j. j < length s \<Longrightarrow> rank (s2 ! j) = rank (s ! j) \<and>
        hasLabel (s2 ! j) = hasLabel (s ! j) \<and> label (s2 ! j) = label (s ! j)"
    and ry: "root_of s y yr"
    using len1 eq1 keep1 by (auto simp: find_post_def)
  have b: "xr < length s" "yr < length s"
    using rx ry by (auto dest: root_of_bounds)
  have rk: "rank (s2 ! xr) = rank (s ! xr)" "rank (s2 ! yr) = rank (s ! yr)"
    using keep2[OF b(1)] keep2[OF b(2)] by simp_all
  have "Set_unite s x y =
             (if xr = yr then Some (Inr s2)
              else if rank (s ! xr) < rank (s ! yr) then
                Some (Inr (s2[xr := (s2 ! xr)\<lparr>parent := Some yr\<rparr>]))
              else if rank (s ! yr) < rank (s ! xr) then
                Some (Inr (s2[yr := (s2 ! yr)\<lparr>parent := Some xr\<rparr>]))
              else if rank (s ! xr) = 65535 then Some (Inl GraphOverflow)
              else Some (Inr (s2[yr := (s2 ! yr)\<lparr>parent := Some xr\<rparr>,
                                 xr := (s2 ! xr)\<lparr>rank := rank (s ! xr) + 1\<rparr>])))"
    by (simp add: Set_unite_eq_spec unite_spec_def fx fy rk)
  with fx fy px py rx ry f2 len2 eq2 keep2 show ?thesis by blast
qed

section \<open>Properties of the connected-components engine\<close>

subsection \<open>Loops\<close>

lemma for_each_append:
  "for_each (xs @ ys) body s =
     (case for_each xs body s of None \<Rightarrow> None | Some (Inl e) \<Rightarrow> Some (Inl e)
      | Some (Inr s') \<Rightarrow> for_each ys body s')"
  by (induction xs arbitrary: s) (auto split: option.splits sum.splits)

lemma for_each_map: "for_each (map h xs) body = for_each xs (\<lambda>x. body (h x))"
proof
  fix s show "for_each (map h xs) body s = for_each xs (\<lambda>x. body (h x)) s"
    by (induction xs arbitrary: s) (auto split: option.splits sum.splits)
qed

lemma for_each_product:
  "for_each (List.product xs ys) body = for_each xs (\<lambda>x. for_each ys (\<lambda>y. body (x, y)))"
proof
  fix s show "for_each (List.product xs ys) body s =
      for_each xs (\<lambda>x. for_each ys (\<lambda>y. body (x, y))) s"
    by (induction xs arbitrary: s)
       (auto simp: for_each_append for_each_map split: option.splits sum.splits)
qed

lemma for_each_scan:
  "for_each [0..<depth] (\<lambda>w. for_each [0..<height] (\<lambda>v. for_each [0..<width] (\<lambda>u. f w v u))) =
   for_each (scan_order width height depth) (\<lambda>(u, v, w). f w v u)"
  by (simp add: scan_order_def for_each_product for_each_map)

lemma for_each_rule:
  assumes step: "\<And>x A t. I A t \<Longrightarrow> x \<in> set xs \<Longrightarrow> x \<notin> A \<Longrightarrow>
            \<exists>r. body x t = Some r \<and> (\<forall>t'. r = Inr t' \<longrightarrow> I (insert x A) t')"
  shows "I A s \<Longrightarrow> distinct xs \<Longrightarrow> A \<inter> set xs = {} \<Longrightarrow>
         \<exists>r. for_each xs body s = Some r \<and> (\<forall>s'. r = Inr s' \<longrightarrow> I (A \<union> set xs) s')"
  using step
proof (induction xs arbitrary: A s)
  case Nil
  then show ?case by simp
next
  case (Cons x xs)
  from Cons.prems have "x \<notin> A" by auto
  with Cons.prems(4)[OF Cons.prems(1), of x] obtain r where
    r: "body x s = Some r" "\<And>t'. r = Inr t' \<Longrightarrow> I (insert x A) t'" by auto
  show ?case
  proof (cases r)
    case (Inl e)
    with r show ?thesis by simp
  next
    case (Inr t)
    with r have I: "I (insert x A) t" by simp
    have "\<exists>r. for_each xs body t = Some r \<and> (\<forall>s'. r = Inr s' \<longrightarrow> I (insert x A \<union> set xs) s')"
    proof (rule Cons.IH[OF I])
      show "distinct xs" using Cons.prems by simp
      show "insert x A \<inter> set xs = {}" using Cons.prems by auto
      show "\<exists>r. body y t = Some r \<and> (\<forall>t'. r = Inr t' \<longrightarrow> I (insert y B) t')"
        if "I B t" "y \<in> set xs" "y \<notin> B" for y B t
        using Cons.prems(4)[OF that(1), of y] that by auto
    qed
    then show ?thesis using r Inr by simp
  qed
qed

subsection \<open>Voxel indexing\<close>

lemma set_scan_order:
  "set (scan_order width height depth) = {p. in_volume width height depth p}"
  by (auto simp: scan_order_def in_volume_def image_iff)

lemma distinct_scan_order: "distinct (scan_order width height depth)"
  unfolding scan_order_def
  by (auto simp: distinct_map distinct_product inj_on_def)

lemma mixed_radix_less:
  assumes "u < (b::nat)" "v < h"
  shows "v * b + u < h * b"
proof -
  have "v * b + u < (v + 1) * b" using assms(1) by simp
  also have "\<dots> \<le> h * b" using assms(2) by (intro mult_le_mono1) simp
  finally show ?thesis .
qed

lemma voxel_index_less:
  assumes "u < width" "v < height" "w < depth"
  shows "voxel_index width height u v w < width * height * depth"
proof -
  have "v * width + u < height * width"
    using assms(1,2) by (rule mixed_radix_less)
  then have "w * (height * width) + (v * width + u) < depth * (height * width)"
    using assms(3) by (rule mixed_radix_less)
  then show ?thesis by (simp add: voxel_index_def ac_simps)
qed

lemma voxel_index_inj:
  assumes "u < width" "v < height" "u' < width" "v' < height"
    and "voxel_index width height u v w = voxel_index width height u' v' w'"
  shows "u = u' \<and> v = v' \<and> w = w'"
proof -
  have e: "(w * height + v) * width + u = (w' * height + v') * width + u'"
    using assms(5) by (simp add: voxel_index_def algebra_simps)
  from arg_cong[OF e, of "\<lambda>x. x mod width"] assms(1,3) have u: "u = u'" by simp
  from arg_cong[OF e, of "\<lambda>x. x div width"] assms(1,3) have e2: "w * height + v = w' * height + v'"
    by simp
  from arg_cong[OF e2, of "\<lambda>x. x mod height"] assms(2,4) have v: "v = v'" by simp
  from arg_cong[OF e2, of "\<lambda>x. x div height"] assms(2,4) have "w = w'" by simp
  with u v show ?thesis by simp
qed

lemma voxel_at_less:
  "in_volume width height depth p \<Longrightarrow> voxel_at width height p < width * height * depth"
  by (auto simp: in_volume_def voxel_at_def intro: voxel_index_less)

lemma voxel_at_inj:
  assumes "in_volume width height depth p" "in_volume width height depth q"
    and "voxel_at width height p = voxel_at width height q"
  shows "p = q"
proof -
  obtain u v w where p: "p = (u, v, w)" by (cases p)
  obtain u' v' w' where q: "q = (u', v', w')" by (cases q)
  from assms(1,2) have "u < width" "v < height" "u' < width" "v' < height"
    by (simp_all add: p q in_volume_def)
  moreover from assms(3) have "voxel_index width height u v w = voxel_index width height u' v' w'"
    by (simp add: p q voxel_at_def)
  ultimately have "u = u' \<and> v = v' \<and> w = w'" by (rule voxel_index_inj)
  then show ?thesis by (simp add: p q)
qed

lemma finite_volume: "finite {p. in_volume width height depth p}"
  using set_scan_order[of width height depth, symmetric] by (metis List.finite_set)

lemma card_volume: "card {p. in_volume width height depth p} = width * height * depth"
proof -
  have "card (set (scan_order width height depth)) = length (scan_order width height depth)"
    by (rule distinct_card[OF distinct_scan_order])
  moreover have "length (scan_order width height depth) = width * height * depth"
    by (simp add: scan_order_def length_product)
  ultimately show ?thesis by (simp add: set_scan_order)
qed


subsection \<open>Neighbours\<close>

lemma upt_3: "[0..<3] = [0, 1, 2]"
  by (simp add: upt_rec)

lemma face_neighbors_sym: "face_neighbors p q \<Longrightarrow> face_neighbors q p"
  by (auto simp: face_neighbors_def split: prod.splits)

lemma earlier_neighbor_face:
  "i \<in> {0, 1, 2} \<Longrightarrow> earlier_neighbor i p q \<Longrightarrow> face_neighbors p q"
  by (auto simp: earlier_neighbor_def face_neighbors_def du_def dv_def dw_def split: prod.splits)


lemma value_step_sym:
  "value_step width height depth inputBuffer p q \<Longrightarrow> value_step width height depth inputBuffer q p"
  by (auto simp: value_step_def dest: face_neighbors_sym)

lemma connected_sym:
  "(value_step width height depth inputBuffer)\<^sup>*\<^sup>* p q \<Longrightarrow>
   (value_step width height depth inputBuffer)\<^sup>*\<^sup>* q p"
proof (induction rule: rtranclp_induct)
  case base
  then show ?case by simp
next
  case (step y z)
  from step.hyps(2) have "value_step width height depth inputBuffer z y" by (rule value_step_sym)
  then show ?case using step.IH by (rule converse_rtranclp_into_rtranclp)
qed

lemma unite_neighbor_eq:
  assumes "i \<in> {0, 1, 2}"
  shows "unite_neighbor width height depth inputBuffer w v u i s =
     (let q = (nat (int u + du ! i), nat (int v + dv ! i), nat (int w + dw ! i)) in
      if earlier_neighbor i (u, v, w) q \<and> in_volume width height depth q \<and>
         inputBuffer ! voxel_at width height q = inputBuffer ! voxel_at width height (u, v, w)
      then Set_unite s (voxel_at width height (u, v, w)) (voxel_at width height q)
      else Some (Inr s))"
  using assms
  by (auto simp: unite_neighbor_def earlier_neighbor_def in_volume_def voxel_at_def Let_def
        du_def dv_def dw_def)

lemma earlier_neighbor_unique:
  "earlier_neighbor i (u, v, w) q \<Longrightarrow>
   q = (nat (int u + du ! i), nat (int v + dv ! i), nat (int w + dw ! i))"
  by (auto simp: earlier_neighbor_def split: prod.splits)

subsection \<open>First pass: building the forest\<close>

lemma linked_to_earlier_mono:
  "linked_to_earlier width height depth inputBuffer B p s \<Longrightarrow>
   (\<And>i j. same_set s i j \<Longrightarrow> same_set s' i j) \<Longrightarrow>
   linked_to_earlier width height depth inputBuffer B p s'"
  unfolding linked_to_earlier_def by blast

lemma unite_pass1:
  assumes inv: "pass1_inv width height depth inputBuffer backgroundColor A s"
    and st: "value_step width height depth inputBuffer p q"
  shows "Set_unite s (voxel_at width height p) (voxel_at width height q) = Some (Inl GraphOverflow) \<or>
     (\<exists>s'. Set_unite s (voxel_at width height p) (voxel_at width height q) = Some (Inr s') \<and>
        pass1_inv width height depth inputBuffer backgroundColor A s' \<and>
        same_set s' (voxel_at width height p) (voxel_at width height q) \<and>
        (\<forall>i j. same_set s i j \<longrightarrow> same_set s' i j))"
proof -
  let ?x = "voxel_at width height p" and ?y = "voxel_at width height q"
  let ?R = "(value_step width height depth inputBuffer)\<^sup>*\<^sup>*"
  from inv have f: "forest s" and len: "length s = width * height * depth"
    and nolab: "\<And>j. j < width * height * depth \<Longrightarrow> \<not> hasLabel (s ! j)"
    and sound: "\<And>a b. in_volume width height depth a \<Longrightarrow> in_volume width height depth b \<Longrightarrow>
        same_set s (voxel_at width height a) (voxel_at width height b) \<Longrightarrow> ?R a b"
    and compl: "\<And>a. a \<in> A \<Longrightarrow> inputBuffer ! voxel_at width height a \<noteq> backgroundColor \<Longrightarrow>
        linked_to_earlier width height depth inputBuffer {0, 1, 2} a s"
    unfolding pass1_inv_def by blast+
  from st have vp: "in_volume width height depth p" and vq: "in_volume width height depth q"
    by (auto simp: value_step_def)
  then have x: "?x < length s" and y: "?y < length s"
    using len by (auto dest: voxel_at_less)
  from Set_unite_correct[OF f x y] show ?thesis
  proof
    assume "Set_unite s ?x ?y = Some (Inl GraphOverflow)"
    then show ?thesis by simp
  next
    assume "\<exists>s'. Set_unite s ?x ?y = Some (Inr s') \<and> unite_post s ?x ?y s'"
    then obtain s' where res: "Set_unite s ?x ?y = Some (Inr s')" and post: "unite_post s ?x ?y s'"
      by blast
    from post have f': "forest s'" and len': "length s' = length s"
      and ss: "\<And>i j. same_set s' i j \<longleftrightarrow> same_set s i j \<or> (same_set s i ?x \<and> same_set s ?y j)
            \<or> (same_set s i ?y \<and> same_set s ?x j)"
      and keep: "\<And>j. j < length s \<Longrightarrow> hasLabel (s' ! j) = hasLabel (s ! j)"
      unfolding unite_post_def by blast+
    have mono: "same_set s' i j" if "same_set s i j" for i j
      using that ss by blast
    have xy: "same_set s' ?x ?y"
      using ss[of ?x ?y] same_set_refl[OF f x] same_set_refl[OF f y] by blast
    have pq: "?R p q" using st by blast
    have qp: "?R q p" using pq by (rule connected_sym)
    have sound': "?R a b"
      if a: "in_volume width height depth a" and b: "in_volume width height depth b"
        and sab: "same_set s' (voxel_at width height a) (voxel_at width height b)" for a b
    proof -
      from sab ss consider
          "same_set s (voxel_at width height a) (voxel_at width height b)"
        | "same_set s (voxel_at width height a) ?x" "same_set s ?y (voxel_at width height b)"
        | "same_set s (voxel_at width height a) ?y" "same_set s ?x (voxel_at width height b)"
        by blast
      then show ?thesis
      proof cases
        case 1
        then show ?thesis using a b by (rule sound[rotated 2])
      next
        case 2
        have "?R a p" using a vp 2(1) by (rule sound)
        moreover have "?R q b" using vq b 2(2) by (rule sound)
        ultimately show ?thesis using pq by (meson rtranclp_trans)
      next
        case 3
        have "?R a q" using a vq 3(1) by (rule sound)
        moreover have "?R p b" using vp b 3(2) by (rule sound)
        ultimately show ?thesis using qp by (meson rtranclp_trans)
      qed
    qed
    have compl': "linked_to_earlier width height depth inputBuffer {0, 1, 2} a s'"
      if "a \<in> A" "inputBuffer ! voxel_at width height a \<noteq> backgroundColor" for a
      using compl[OF that] mono by (rule linked_to_earlier_mono)
    have nolab': "\<not> hasLabel (s' ! j)" if "j < width * height * depth" for j
      using nolab[OF that] keep[of j] that len by simp
    have "pass1_inv width height depth inputBuffer backgroundColor A s'"
      unfolding pass1_inv_def using f' len' len nolab' sound' compl' by auto
    with res xy mono show ?thesis by blast
  qed
qed

lemma unite_neighbor_step:
  assumes inv: "pass1_inv width height depth inputBuffer backgroundColor A s"
    and lk: "linked_to_earlier width height depth inputBuffer B (u, v, w) s"
    and p: "in_volume width height depth (u, v, w)"
    and i: "i \<in> {0, 1, 2}"
  shows "\<exists>r. unite_neighbor width height depth inputBuffer w v u i s = Some r \<and>
     (\<forall>s'. r = Inr s' \<longrightarrow>
        pass1_inv width height depth inputBuffer backgroundColor A s' \<and>
        linked_to_earlier width height depth inputBuffer (insert i B) (u, v, w) s')"
proof -
  define q where "q = (nat (int u + du ! i), nat (int v + dv ! i), nat (int w + dw ! i))"
  let ?p = "(u, v, w)"
  let ?c = "earlier_neighbor i ?p q \<and> in_volume width height depth q \<and>
         inputBuffer ! voxel_at width height q = inputBuffer ! voxel_at width height ?p"
  have eq: "unite_neighbor width height depth inputBuffer w v u i s =
      (if ?c then Set_unite s (voxel_at width height ?p) (voxel_at width height q) else Some (Inr s))"
    by (simp add: unite_neighbor_eq[OF i] q_def Let_def)
  show ?thesis
  proof (cases ?c)
    case False
    have "linked_to_earlier width height depth inputBuffer (insert i B) ?p s"
      unfolding linked_to_earlier_def
    proof (intro ballI allI impI)
      fix j q' assume j: "j \<in> insert i B"
        and h: "earlier_neighbor j ?p q' \<and> in_volume width height depth q' \<and>
           inputBuffer ! voxel_at width height q' = inputBuffer ! voxel_at width height ?p"
      show "same_set s (voxel_at width height ?p) (voxel_at width height q')"
      proof (cases "j = i")
        case True
        with h have "q' = q" using earlier_neighbor_unique[of i u v w q'] by (simp add: q_def)
        with h True False show ?thesis by simp
      next
        case False
        with j have "j \<in> B" by simp
        with lk h show ?thesis unfolding linked_to_earlier_def by blast
      qed
    qed
    moreover have "unite_neighbor width height depth inputBuffer w v u i s = Some (Inr s)"
      unfolding eq using False by (rule if_not_P)
    ultimately show ?thesis using inv by simp
  next
    case True
    have eq': "unite_neighbor width height depth inputBuffer w v u i s =
        Set_unite s (voxel_at width height ?p) (voxel_at width height q)"
      unfolding eq using True by (rule if_P)
    from True have st: "value_step width height depth inputBuffer ?p q"
      using p i earlier_neighbor_face[OF i, of ?p q] by (simp add: value_step_def)
    from unite_pass1[OF inv st] show ?thesis
    proof
      assume "Set_unite s (voxel_at width height ?p) (voxel_at width height q) = Some (Inl GraphOverflow)"
      with eq' show ?thesis by simp
    next
      assume "\<exists>s'. Set_unite s (voxel_at width height ?p) (voxel_at width height q) = Some (Inr s') \<and>
        pass1_inv width height depth inputBuffer backgroundColor A s' \<and>
        same_set s' (voxel_at width height ?p) (voxel_at width height q) \<and>
        (\<forall>i j. same_set s i j \<longrightarrow> same_set s' i j)"
      then obtain s' where res: "Set_unite s (voxel_at width height ?p) (voxel_at width height q) = Some (Inr s')"
        and inv': "pass1_inv width height depth inputBuffer backgroundColor A s'"
        and pq: "same_set s' (voxel_at width height ?p) (voxel_at width height q)"
        and mono: "\<And>i j. same_set s i j \<Longrightarrow> same_set s' i j" by blast
      have "linked_to_earlier width height depth inputBuffer (insert i B) ?p s'"
        unfolding linked_to_earlier_def
      proof (intro ballI allI impI)
        fix j q' assume j: "j \<in> insert i B"
          and h: "earlier_neighbor j ?p q' \<and> in_volume width height depth q' \<and>
             inputBuffer ! voxel_at width height q' = inputBuffer ! voxel_at width height ?p"
        show "same_set s' (voxel_at width height ?p) (voxel_at width height q')"
        proof (cases "j = i")
          case True
          with h have "q' = q" using earlier_neighbor_unique[of i u v w q'] by (simp add: q_def)
          with pq show ?thesis by simp
        next
          case False
          with j have "j \<in> B" by simp
          with lk h have "same_set s (voxel_at width height ?p) (voxel_at width height q')"
            unfolding linked_to_earlier_def by blast
          then show ?thesis by (rule mono)
        qed
      qed
      with res inv' eq' show ?thesis by simp
    qed
  qed
qed

lemma connect_voxel_step:
  fixes s :: "'u Set_node list"
  assumes inv: "pass1_inv width height depth inputBuffer backgroundColor A s"
    and p: "in_volume width height depth (u, v, w)"
  shows "\<exists>r. connect_voxel width height depth inputBuffer backgroundColor w v u s = Some r \<and>
     (\<forall>s'. r = Inr s' \<longrightarrow>
        pass1_inv width height depth inputBuffer backgroundColor (insert (u, v, w) A) s')"
proof (cases "inputBuffer ! voxel_at width height (u, v, w) = backgroundColor")
  case True
  then have "connect_voxel width height depth inputBuffer backgroundColor w v u s = Some (Inr s)"
    by (simp add: connect_voxel_def voxel_at_def)
  moreover have "pass1_inv width height depth inputBuffer backgroundColor (insert (u, v, w) A) s"
    using inv True unfolding pass1_inv_def by simp
  ultimately show ?thesis by simp
next
  case False
  define I where "I = (\<lambda>B (t :: 'u Set_node list). pass1_inv width height depth inputBuffer backgroundColor A t \<and>
        linked_to_earlier width height depth inputBuffer B (u, v, w) t)"
  have "\<exists>r. for_each [0, 1, 2] (unite_neighbor width height depth inputBuffer w v u) s = Some r \<and>
      (\<forall>s'. r = Inr s' \<longrightarrow> I ({} \<union> set [0, 1, 2]) s')"
  proof (rule for_each_rule[where I = I])
    show "I {} s" using inv by (simp add: I_def linked_to_earlier_def)
    show "distinct [0, 1, 2 :: nat]" by simp
    show "{} \<inter> set [0, 1, 2 :: nat] = {}" by simp
    show "\<exists>r. unite_neighbor width height depth inputBuffer w v u x t = Some r \<and>
            (\<forall>t'. r = Inr t' \<longrightarrow> I (insert x B) t')"
      if "I B t" "x \<in> set [0, 1, 2]" "x \<notin> B" for x B t
    proof -
      from that(2) have x: "x \<in> {0, 1, 2}" by simp
      from that(1) have a: "pass1_inv width height depth inputBuffer backgroundColor A t"
        and b: "linked_to_earlier width height depth inputBuffer B (u, v, w) t"
        by (simp_all add: I_def)
      from unite_neighbor_step[OF a b p x] show ?thesis unfolding I_def .
    qed
  qed
  then obtain r where r: "for_each [0, 1, 2] (unite_neighbor width height depth inputBuffer w v u) s = Some r"
    and post: "\<And>s'. r = Inr s' \<Longrightarrow> pass1_inv width height depth inputBuffer backgroundColor A s' \<and>
        linked_to_earlier width height depth inputBuffer {0, 1, 2} (u, v, w) s'"
    by (auto simp: I_def)
  have "connect_voxel width height depth inputBuffer backgroundColor w v u s = Some r"
    using False r by (simp add: connect_voxel_def voxel_at_def upt_3)
  moreover have "pass1_inv width height depth inputBuffer backgroundColor (insert (u, v, w) A) s'"
    if "r = Inr s'" for s'
    using post[OF that] unfolding pass1_inv_def by simp
  ultimately show ?thesis by simp
qed

lemma root_of_init: "root_of (replicate n Set_init) i r \<Longrightarrow> r = i"
  by (erule root_of.cases) (auto simp: Set_init_def)

lemma forest_init: "forest (replicate n Set_init)"
  by (simp add: forest_def Set_init_def)

lemma pass1_inv_init:
  "pass1_inv width height depth inputBuffer backgroundColor {}
     (replicate (width * height * depth) Set_init)"
proof -
  have "p = q" if "in_volume width height depth p" "in_volume width height depth q"
      "same_set (replicate (width * height * depth) Set_init)
         (voxel_at width height p) (voxel_at width height q)" for p q
  proof -
    from that(3) have "voxel_at width height p = voxel_at width height q"
      unfolding same_set_def by (auto dest!: root_of_init)
    with that(1,2) show ?thesis by (rule voxel_at_inj)
  qed
  then have "(value_step width height depth inputBuffer)\<^sup>*\<^sup>* p q"
    if "in_volume width height depth p \<and> in_volume width height depth q \<and>
      same_set (replicate (width * height * depth) Set_init)
         (voxel_at width height p) (voxel_at width height q)" for p q
    using that by blast
  moreover have "\<not> hasLabel (replicate (width * height * depth) Set_init ! j)"
    if "j < width * height * depth" for j
    using that by (simp add: Set_init_def)
  ultimately show ?thesis
    unfolding pass1_inv_def
  proof (intro conjI)
    show "forest (replicate (width * height * depth) Set_init)" by (rule forest_init)
    show "length (replicate (width * height * depth) Set_init) = width * height * depth"
      by simp
  qed blast+
qed

lemma build_forest_correct:
  "\<exists>r. build_forest width height depth inputBuffer backgroundColor
          (replicate (width * height * depth) Set_init) = Some r \<and>
     (\<forall>s. r = Inr s \<longrightarrow>
        pass1_inv width height depth inputBuffer backgroundColor
          {p. in_volume width height depth p} s)"
proof -
  let ?body = "\<lambda>(u, v, w). connect_voxel width height depth inputBuffer backgroundColor w v u"
  have "\<exists>r. for_each (scan_order width height depth) ?body
          (replicate (width * height * depth) Set_init) = Some r \<and>
     (\<forall>s. r = Inr s \<longrightarrow> pass1_inv width height depth inputBuffer backgroundColor
          ({} \<union> set (scan_order width height depth)) s)"
  proof (rule for_each_rule[where I = "pass1_inv width height depth inputBuffer backgroundColor"])
    show "pass1_inv width height depth inputBuffer backgroundColor {}
        (replicate (width * height * depth) Set_init)" by (rule pass1_inv_init)
    show "distinct (scan_order width height depth)" by (rule distinct_scan_order)
    show "{} \<inter> set (scan_order width height depth) = {}" by simp
    show "\<exists>r. ?body x t = Some r \<and>
        (\<forall>t'. r = Inr t' \<longrightarrow> pass1_inv width height depth inputBuffer backgroundColor (insert x A) t')"
      if "pass1_inv width height depth inputBuffer backgroundColor A t"
        "x \<in> set (scan_order width height depth)" "x \<notin> A" for x A t
    proof -
      obtain u v w where x: "x = (u, v, w)" by (cases x)
      from that(2) have "in_volume width height depth (u, v, w)"
        by (simp add: set_scan_order x)
      from connect_voxel_step[OF that(1) this] show ?thesis by (simp add: x)
    qed
  qed
  then show ?thesis
    by (simp add: build_forest_def for_each_scan set_scan_order)
qed



subsection \<open>Second pass: labels and statistics\<close>

lemma forest_label_update:
  assumes "forest s" "r < length s"
  shows "forest (s[r := (s ! r)\<lparr>label := l, hasLabel := b\<rparr>])"
  unfolding forest_def
proof (intro allI impI)
  let ?s' = "s[r := (s ! r)\<lparr>label := l, hasLabel := b\<rparr>]"
  fix i p assume i: "i < length ?s'" and par: "parent (?s' ! i) = Some p"
  have same: "parent (?s' ! j) = parent (s ! j) \<and> rank (?s' ! j) = rank (s ! j)" for j
    using assms(2) by (cases "j = r") auto
  from i par have "i < length s" "parent (s ! i) = Some p" by (simp_all add: same)
  with assms(1) have "p < length s \<and> rank (s ! i) < rank (s ! p)" by (rule forestD)
  then show "p < length ?s' \<and> rank (?s' ! i) < rank (?s' ! p)" by (simp add: same)
qed

lemma root_of_label_update:
  "root_of (s[r := (s ! r)\<lparr>label := l, hasLabel := b\<rparr>]) j q \<longleftrightarrow> root_of s j q"
proof -
  let ?s' = "s[r := (s ! r)\<lparr>label := l, hasLabel := b\<rparr>]"
  have len: "length ?s' = length s" by simp
  have par: "parent (?s' ! j) = parent (s ! j)" for j
    by (cases "j = r"; cases "r < length s") (auto simp: list_update_beyond)
  show ?thesis
    using root_of_parents_cong[of s j q ?s'] root_of_parents_cong[of ?s' j q s] len par
    by auto
qed

lemma sum_list_update_count:
  fixes stats :: "'t ComponentStatistics list"
  assumes "l < length stats"
  shows "sum_list (map (\<lambda>e. unat (pixelCount e)) (stats[l := (stats ! l)\<lparr>pixelCount := c\<rparr>])) +
           unat (pixelCount (stats ! l)) =
         sum_list (map (\<lambda>e. unat (pixelCount e)) stats) + unat c"
  using assms
proof (induction stats arbitrary: l)
  case Nil
  then show ?case by simp
next
  case (Cons e es)
  show ?case
  proof (cases l)
    case 0
    then show ?thesis by simp
  next
    case (Suc m)
    with Cons.prems have "m < length es" by simp
    from Cons.IH[OF this] Suc show ?thesis by simp
  qed
qed

lemma count_le_sum:
  fixes stats :: "'t ComponentStatistics list"
  shows "l < length stats \<Longrightarrow>
         unat (pixelCount (stats ! l)) \<le> sum_list (map (\<lambda>e. unat (pixelCount e)) stats)"
  by (rule member_le_sum_list) (auto simp: in_set_conv_nth intro!: image_eqI[where x = "stats ! l"])


lemma labels_invI:
  assumes "forest (components st)"
    and "length (components st) = width * height * depth"
    and "length (outputBuffer st) = width * height * depth"
    and "\<And>j r. root_of (components st) j r \<longleftrightarrow> root_of comps0 j r"
    and "nextLabel st \<noteq> backgroundLabel"
    and "length (statistics st) = unat (nextLabel st)"
    and "\<And>j. j < width * height * depth \<Longrightarrow> hasLabel (components st ! j) \<Longrightarrow>
        label (components st ! j) \<noteq> backgroundLabel \<and>
        unat (label (components st ! j)) < unat (nextLabel st)"
    and "\<And>i j. i < width * height * depth \<Longrightarrow> j < width * height * depth \<Longrightarrow>
        hasLabel (components st ! i) \<Longrightarrow> hasLabel (components st ! j) \<Longrightarrow>
        label (components st ! i) = label (components st ! j) \<Longrightarrow> i = j"
    and "A \<subseteq> {p. in_volume width height depth p}"
    and "\<And>p. p \<in> A \<Longrightarrow> inputBuffer ! voxel_at width height p = backgroundColor \<Longrightarrow>
        outputBuffer st ! voxel_at width height p = backgroundLabel"
    and "\<And>p. p \<in> A \<Longrightarrow> inputBuffer ! voxel_at width height p \<noteq> backgroundColor \<Longrightarrow>
        \<exists>r. root_of (components st) (voxel_at width height p) r \<and> hasLabel (components st ! r) \<and>
             outputBuffer st ! voxel_at width height p = label (components st ! r)"
    and "\<And>m. m < unat (nextLabel st) \<Longrightarrow> m \<noteq> unat backgroundLabel \<Longrightarrow>
        \<exists>p \<in> A. unat (outputBuffer st ! voxel_at width height p) = m"
    and "unat backgroundLabel < unat (nextLabel st) \<Longrightarrow>
        inputLabel (statistics st ! unat backgroundLabel) = backgroundColor"
  shows "labels_inv width height depth inputBuffer backgroundColor backgroundLabel comps0 A st"
  unfolding labels_inv_def using assms by blast

lemma labels_invD:
  assumes "labels_inv width height depth inputBuffer backgroundColor backgroundLabel comps0 A st"
  shows "forest (components st)"
    and "length (components st) = width * height * depth"
    and "length (outputBuffer st) = width * height * depth"
    and "\<And>j r. root_of (components st) j r \<longleftrightarrow> root_of comps0 j r"
    and "nextLabel st \<noteq> backgroundLabel"
    and "length (statistics st) = unat (nextLabel st)"
    and "\<And>j. j < width * height * depth \<Longrightarrow> hasLabel (components st ! j) \<Longrightarrow>
        label (components st ! j) \<noteq> backgroundLabel \<and>
        unat (label (components st ! j)) < unat (nextLabel st)"
    and "\<And>i j. i < width * height * depth \<Longrightarrow> j < width * height * depth \<Longrightarrow>
        hasLabel (components st ! i) \<Longrightarrow> hasLabel (components st ! j) \<Longrightarrow>
        label (components st ! i) = label (components st ! j) \<Longrightarrow> i = j"
    and "A \<subseteq> {p. in_volume width height depth p}"
    and "\<And>p. p \<in> A \<Longrightarrow> inputBuffer ! voxel_at width height p = backgroundColor \<Longrightarrow>
        outputBuffer st ! voxel_at width height p = backgroundLabel"
    and "\<And>p. p \<in> A \<Longrightarrow> inputBuffer ! voxel_at width height p \<noteq> backgroundColor \<Longrightarrow>
        \<exists>r. root_of (components st) (voxel_at width height p) r \<and> hasLabel (components st ! r) \<and>
             outputBuffer st ! voxel_at width height p = label (components st ! r)"
    and "\<And>m. m < unat (nextLabel st) \<Longrightarrow> m \<noteq> unat backgroundLabel \<Longrightarrow>
        \<exists>p \<in> A. unat (outputBuffer st ! voxel_at width height p) = m"
    and "unat backgroundLabel < unat (nextLabel st) \<Longrightarrow>
        inputLabel (statistics st ! unat backgroundLabel) = backgroundColor"
  using assms unfolding labels_inv_def by blast+


lemma count_pixel_step:
  assumes li: "labels_inv width height depth inputBuffer backgroundColor backgroundLabel comps0
                 (insert p A) st"
    and ci: "counts_inv width height depth inputBuffer backgroundColor backgroundLabel A st"
    and pA: "p \<notin> A"
  shows "\<exists>r. count_pixel (voxel_at width height p) st = Some r \<and>
     (\<forall>st'. r = Inr st' \<longrightarrow>
        labels_inv width height depth inputBuffer backgroundColor backgroundLabel comps0 (insert p A) st' \<and>
        counts_inv width height depth inputBuffer backgroundColor backgroundLabel (insert p A) st')"
proof -
  define l where "l = unat (outputBuffer st ! voxel_at width height p)"
  define stats where "stats = statistics st"
  show ?thesis
  proof (cases "l < length stats")
    case False
    then show ?thesis by (simp add: count_pixel_def l_def stats_def Let_def)
  next
    case True
    define st' where "st' = st\<lparr>statistics := stats
        [l := (stats ! l)\<lparr>pixelCount := pixelCount (stats ! l) + 1\<rparr>]\<rparr>"
    have res: "count_pixel (voxel_at width height p) st = Some (Inr st')"
      using True by (simp add: count_pixel_def l_def stats_def Let_def st'_def)
    have il: "inputLabel (statistics st' ! j) = inputLabel (statistics st ! j)" for j
      using True by (cases "j = l") (auto simp: st'_def stats_def)
    note D = labels_invD[OF li]
    have li': "labels_inv width height depth inputBuffer backgroundColor backgroundLabel comps0
        (insert p A) st'"
    proof (rule labels_invI)
      show "length (statistics st') = unat (nextLabel st')"
        using D(6) by (simp add: st'_def stats_def)
      show "unat backgroundLabel < unat (nextLabel st') \<Longrightarrow>
          inputLabel (statistics st' ! unat backgroundLabel) = backgroundColor"
        using D(13) by (simp add: il) (simp add: st'_def)
    qed (use D in \<open>simp_all add: st'_def\<close>)
    have fin: "finite {q. in_volume width height depth q}" by (rule finite_volume)
    have sub: "insert p A \<subseteq> {q. in_volume width height depth q}" by (rule D(9))
    then have finA: "finite A" using fin by (meson finite_subset subset_insertI)
    have "card (insert p A) \<le> card {q. in_volume width height depth q}"
      using sub fin by (rule card_mono[rotated])
    then have cardA: "card A < width * height * depth"
      using pA finA by (simp add: card_volume)
    have sum': "sum_list (map (\<lambda>e. unat (pixelCount e)) (statistics st')) = card (insert p A)"
      if small: "width * height * depth < 2 ^ 32"
    proof -
      from ci small have sum: "sum_list (map (\<lambda>e. unat (pixelCount e)) stats) = card A"
        by (simp add: counts_inv_def stats_def)
      have "unat (pixelCount (stats ! l)) \<le> card A"
        using count_le_sum[OF True] sum by simp
      with cardA small have "unat (pixelCount (stats ! l)) < 2 ^ 32 - 1" by simp
      moreover have "unat (- 1 :: 32 word) = 2 ^ 32 - 1"
        by (simp add: unsigned_minus_1_eq_mask mask_eq_exp_minus_1)
      ultimately have "pixelCount (stats ! l) \<noteq> - 1"
        by auto
      then have succ: "unat (pixelCount (stats ! l) + 1) = Suc (unat (pixelCount (stats ! l)))"
        by (rule unat_succ)
      from sum_list_update_count[OF True, of "pixelCount (stats ! l) + 1"] succ sum
      have "sum_list (map (\<lambda>e. unat (pixelCount e)) (statistics st')) = Suc (card A)"
        by (simp add: st'_def)
      then show ?thesis using pA finA by simp
    qed
    have bgl: "unat backgroundLabel < unat (nextLabel st')"
      if "\<exists>q \<in> insert p A. inputBuffer ! voxel_at width height q = backgroundColor"
    proof (cases "inputBuffer ! voxel_at width height p = backgroundColor")
      case True
      then have "outputBuffer st ! voxel_at width height p = backgroundLabel"
        using D(10)[of p] by simp
      with \<open>l < length stats\<close> D(6) show ?thesis by (simp add: l_def stats_def st'_def)
    next
      case False
      with that have "\<exists>q \<in> A. inputBuffer ! voxel_at width height q = backgroundColor" by auto
      with ci show ?thesis by (simp add: counts_inv_def st'_def)
    qed
    have "counts_inv width height depth inputBuffer backgroundColor backgroundLabel (insert p A) st'"
      unfolding counts_inv_def using sum' bgl by blast
    with res li' show ?thesis by simp
  qed
qed

lemma background_label_step:
  assumes li: "labels_inv width height depth inputBuffer backgroundColor backgroundLabel comps0 A st"
    and ci: "counts_inv width height depth inputBuffer backgroundColor backgroundLabel A st"
    and pA: "p \<notin> A" and pv: "in_volume width height depth p"
    and bg: "inputBuffer ! voxel_at width height p = backgroundColor"
    and st1: "st1 = st\<lparr>outputBuffer := (outputBuffer st)[voxel_at width height p := backgroundLabel]\<rparr>"
  shows "labels_inv width height depth inputBuffer backgroundColor backgroundLabel comps0 (insert p A) st1 \<and>
         counts_inv width height depth inputBuffer backgroundColor backgroundLabel A st1"
proof -
  note D = labels_invD[OF li]
  let ?k = "voxel_at width height p"
  have k: "?k < width * height * depth" using pv by (rule voxel_at_less)
  have frame: "voxel_at width height q \<noteq> ?k" if "q \<in> A" for q
  proof
    assume "voxel_at width height q = ?k"
    moreover have "in_volume width height depth q" using D(9) that by auto
    ultimately have "q = p" using pv by (rule voxel_at_inj[rotated 2])
    with that pA show False by simp
  qed
  have out: "outputBuffer st1 ! voxel_at width height q = outputBuffer st ! voxel_at width height q"
    if "q \<in> A" for q
    using frame[OF that] by (simp add: st1)
  have outp: "outputBuffer st1 ! ?k = backgroundLabel"
    using k D(3) by (simp add: st1)
  have li': "labels_inv width height depth inputBuffer backgroundColor backgroundLabel comps0 (insert p A) st1"
  proof (rule labels_invI)
    show "insert p A \<subseteq> {p. in_volume width height depth p}" using D(9) pv by simp
    show "outputBuffer st1 ! voxel_at width height q = backgroundLabel"
      if "q \<in> insert p A" "inputBuffer ! voxel_at width height q = backgroundColor" for q
      using that D(10)[of q] out[of q] outp by auto
    show "\<exists>r. root_of (components st1) (voxel_at width height q) r \<and> hasLabel (components st1 ! r) \<and>
             outputBuffer st1 ! voxel_at width height q = label (components st1 ! r)"
      if "q \<in> insert p A" "inputBuffer ! voxel_at width height q \<noteq> backgroundColor" for q
    proof -
      from that bg have q: "q \<in> A" by auto
      from D(11)[OF q that(2)] out[OF q] show ?thesis by (simp add: st1)
    qed
    show "\<exists>q \<in> insert p A. unat (outputBuffer st1 ! voxel_at width height q) = m"
      if "m < unat (nextLabel st1)" "m \<noteq> unat backgroundLabel" for m
    proof -
      from that have "m < unat (nextLabel st)" by (simp add: st1)
      from D(12)[OF this that(2)] obtain q where q: "q \<in> A"
        "unat (outputBuffer st ! voxel_at width height q) = m" by blast
      have "q \<in> insert p A" using q(1) by simp
      moreover have "unat (outputBuffer st1 ! voxel_at width height q) = m"
        using out[OF q(1)] q(2) by simp
      ultimately show ?thesis by blast
    qed
  qed (use D in \<open>simp_all add: st1\<close>)
  have "counts_inv width height depth inputBuffer backgroundColor backgroundLabel A st1"
    using ci by (simp add: counts_inv_def st1)
  with li' show ?thesis by simp
qed

lemma known_label_step:
  assumes li: "labels_inv width height depth inputBuffer backgroundColor backgroundLabel comps0 A st"
    and ci: "counts_inv width height depth inputBuffer backgroundColor backgroundLabel A st"
    and pA: "p \<notin> A" and pv: "in_volume width height depth p"
    and fg: "inputBuffer ! voxel_at width height p \<noteq> backgroundColor"
    and fp: "find_post (components st) (voxel_at width height p) r c1"
    and lab: "hasLabel (c1 ! r)"
    and st1: "st1 = st\<lparr>components := c1,
         outputBuffer := (outputBuffer st)[voxel_at width height p := label (c1 ! r)]\<rparr>"
  shows "labels_inv width height depth inputBuffer backgroundColor backgroundLabel comps0 (insert p A) st1 \<and>
         counts_inv width height depth inputBuffer backgroundColor backgroundLabel A st1"
proof -
  note D = labels_invD[OF li]
  let ?k = "voxel_at width height p"
  let ?c = "components st"
  from fp have rk: "root_of ?c ?k r" and len1: "length c1 = length ?c" and f1: "forest c1"
    and eq1: "\<And>j q. root_of c1 j q \<longleftrightarrow> root_of ?c j q"
    and keep: "\<And>j. j < length ?c \<Longrightarrow> hasLabel (c1 ! j) = hasLabel (?c ! j) \<and> label (c1 ! j) = label (?c ! j)"
    unfolding find_post_def by blast+
  have k: "?k < width * height * depth" using pv by (rule voxel_at_less)
  have keep': "hasLabel (c1 ! j) = hasLabel (?c ! j)" "label (c1 ! j) = label (?c ! j)"
    if "j < width * height * depth" for j
    using keep[of j] that D(2) by simp_all
  have frame: "voxel_at width height q \<noteq> ?k" if "q \<in> A" for q
  proof
    assume "voxel_at width height q = ?k"
    moreover have "in_volume width height depth q" using D(9) that by auto
    ultimately have "q = p" using pv by (rule voxel_at_inj[rotated 2])
    with that pA show False by simp
  qed
  have out: "outputBuffer st1 ! voxel_at width height q = outputBuffer st ! voxel_at width height q"
    if "q \<in> A" for q
    using frame[OF that] by (simp add: st1)
  have outp: "outputBuffer st1 ! ?k = label (c1 ! r)"
    using k D(3) by (simp add: st1)
  have li': "labels_inv width height depth inputBuffer backgroundColor backgroundLabel comps0 (insert p A) st1"
  proof (rule labels_invI)
    show "forest (components st1)" using f1 by (simp add: st1)
    show "length (components st1) = width * height * depth" using len1 D(2) by (simp add: st1)
    show "root_of (components st1) j q \<longleftrightarrow> root_of comps0 j q" for j q
      using eq1 D(4) by (simp add: st1)
    show "label (components st1 ! j) \<noteq> backgroundLabel \<and>
        unat (label (components st1 ! j)) < unat (nextLabel st1)"
      if "j < width * height * depth" "hasLabel (components st1 ! j)" for j
      using D(7)[of j] that keep'[of j] by (simp add: st1)
    show "i = j" if "i < width * height * depth" "j < width * height * depth"
        "hasLabel (components st1 ! i)" "hasLabel (components st1 ! j)"
        "label (components st1 ! i) = label (components st1 ! j)" for i j
      using D(8)[of i j] that keep'[of i] keep'[of j] by (simp add: st1)
    show "insert p A \<subseteq> {p. in_volume width height depth p}" using D(9) pv by simp
    show "outputBuffer st1 ! voxel_at width height q = backgroundLabel"
      if "q \<in> insert p A" "inputBuffer ! voxel_at width height q = backgroundColor" for q
      using that D(10)[of q] out[of q] fg by auto
    show "\<exists>r. root_of (components st1) (voxel_at width height q) r \<and> hasLabel (components st1 ! r) \<and>
             outputBuffer st1 ! voxel_at width height q = label (components st1 ! r)"
      if "q \<in> insert p A" "inputBuffer ! voxel_at width height q \<noteq> backgroundColor" for q
    proof (cases "q = p")
      case True
      have "root_of c1 ?k r" using rk eq1 by simp
      with lab outp True show ?thesis by (auto simp: st1)
    next
      case False
      with that have q: "q \<in> A" by simp
      from D(11)[OF q that(2)] obtain r' where r': "root_of ?c (voxel_at width height q) r'"
        "hasLabel (?c ! r')" "outputBuffer st ! voxel_at width height q = label (?c ! r')" by blast
      from r'(1) have "r' < width * height * depth" using D(2) by (auto dest: root_of_bounds)
      with r' keep'[of r'] eq1 out[OF q] show ?thesis by (auto simp: st1)
    qed
    show "\<exists>q \<in> insert p A. unat (outputBuffer st1 ! voxel_at width height q) = m"
      if "m < unat (nextLabel st1)" "m \<noteq> unat backgroundLabel" for m
    proof -
      from that have "m < unat (nextLabel st)" by (simp add: st1)
      from D(12)[OF this that(2)] obtain q where q: "q \<in> A"
        "unat (outputBuffer st ! voxel_at width height q) = m" by blast
      have "q \<in> insert p A" using q(1) by simp
      moreover have "unat (outputBuffer st1 ! voxel_at width height q) = m"
        using out[OF q(1)] q(2) by simp
      ultimately show ?thesis by blast
    qed
  qed (use D in \<open>simp_all add: st1\<close>)
  have "counts_inv width height depth inputBuffer backgroundColor backgroundLabel A st1"
    using ci by (simp add: counts_inv_def st1)
  with li' show ?thesis by simp
qed


lemma sum_list_zero_counts:
  fixes ext :: "'t ComponentStatistics list"
  shows "\<forall>e \<in> set ext. pixelCount e = 0 \<Longrightarrow> sum_list (map (\<lambda>e. unat (pixelCount e)) ext) = 0"
  by (induction ext) auto

lemma fresh_label_step:
  assumes li: "labels_inv width height depth inputBuffer backgroundColor backgroundLabel comps0 A st"
    and ci: "counts_inv width height depth inputBuffer backgroundColor backgroundLabel A st"
    and pA: "p \<notin> A" and pv: "in_volume width height depth p"
    and fg: "inputBuffer ! voxel_at width height p \<noteq> backgroundColor"
    and fp: "find_post (components st) (voxel_at width height p) r c1"
    and nolab: "\<not> hasLabel (c1 ! r)"
    and comps: "components st1 = c1[r := (c1 ! r)\<lparr>label := nextLabel st, hasLabel := True\<rparr>]"
    and outb: "outputBuffer st1 = (outputBuffer st)[voxel_at width height p := nextLabel st]"
    and stats: "statistics st1 = statistics st @ ext"
    and ext: "\<forall>e \<in> set ext. pixelCount e = 0"
    and nl: "unat (nextLabel st1) = unat (nextLabel st) + length ext" "ext \<noteq> []"
      "nextLabel st1 \<noteq> backgroundLabel"
    and top: "\<And>m. m < unat (nextLabel st1) \<Longrightarrow> m \<noteq> unat backgroundLabel \<Longrightarrow>
        m \<le> unat (nextLabel st)"
    and bge: "unat backgroundLabel < unat (nextLabel st1) \<Longrightarrow>
        \<not> unat backgroundLabel < unat (nextLabel st) \<Longrightarrow>
        inputLabel ((statistics st @ ext) ! unat backgroundLabel) = backgroundColor"
  shows "labels_inv width height depth inputBuffer backgroundColor backgroundLabel comps0 (insert p A) st1 \<and>
         counts_inv width height depth inputBuffer backgroundColor backgroundLabel A st1"
proof -
  note D = labels_invD[OF li]
  let ?k = "voxel_at width height p"
  let ?c = "components st"
  let ?c2 = "c1[r := (c1 ! r)\<lparr>label := nextLabel st, hasLabel := True\<rparr>]"
  from fp have rk: "root_of ?c ?k r" and len1: "length c1 = length ?c" and f1: "forest c1"
    and eq1: "\<And>j q. root_of c1 j q \<longleftrightarrow> root_of ?c j q"
    and keep: "\<And>j. j < length ?c \<Longrightarrow> hasLabel (c1 ! j) = hasLabel (?c ! j) \<and> label (c1 ! j) = label (?c ! j)"
    unfolding find_post_def by blast+
  have k: "?k < width * height * depth" using pv by (rule voxel_at_less)
  have r: "r < width * height * depth" "r < length c1"
    using rk D(2) len1 by (auto dest: root_of_bounds)
  have keep': "hasLabel (c1 ! j) = hasLabel (?c ! j)" "label (c1 ! j) = label (?c ! j)"
    if "j < width * height * depth" for j
    using keep[of j] that D(2) by simp_all
  have c2r: "hasLabel (?c2 ! r)" "label (?c2 ! r) = nextLabel st" using r(2) by simp_all
  have c2o: "?c2 ! j = c1 ! j" if "j \<noteq> r" for j using that by simp
  have lt: "unat (nextLabel st) < unat (nextLabel st1)"
    using nl(1,2) by (cases ext) simp_all
  have old: "label (?c ! j) \<noteq> backgroundLabel \<and> unat (label (?c ! j)) < unat (nextLabel st)"
    if "j < width * height * depth" "j \<noteq> r" "hasLabel (?c2 ! j)" for j
    using D(7)[of j] that keep'[of j] c2o[of j] by simp
  have eq2: "root_of ?c2 j q \<longleftrightarrow> root_of ?c j q" for j q
    using root_of_label_update[where s=c1 and r=r and l="nextLabel st" and b=True and j=j and q=q] eq1
    by simp
  have frame: "voxel_at width height q \<noteq> ?k" if "q \<in> A" for q
  proof
    assume "voxel_at width height q = ?k"
    moreover have "in_volume width height depth q" using D(9) that by auto
    ultimately have "q = p" using pv by (rule voxel_at_inj[rotated 2])
    with that pA show False by simp
  qed
  have out: "outputBuffer st1 ! voxel_at width height q = outputBuffer st ! voxel_at width height q"
    if "q \<in> A" for q
    using frame[OF that] by (simp add: outb)
  have outp: "outputBuffer st1 ! ?k = nextLabel st"
    using k D(3) by (simp add: outb)
  have li': "labels_inv width height depth inputBuffer backgroundColor backgroundLabel comps0 (insert p A) st1"
  proof (rule labels_invI)
    show "forest (components st1)"
      unfolding comps using f1 r(2) by (rule forest_label_update)
    show "length (components st1) = width * height * depth" using len1 D(2) by (simp add: comps)
    show "length (outputBuffer st1) = width * height * depth" using D(3) by (simp add: outb)
    show "root_of (components st1) j q \<longleftrightarrow> root_of comps0 j q" for j q
      unfolding comps using eq2 D(4) by simp
    show "nextLabel st1 \<noteq> backgroundLabel" by (rule nl(3))
    show "length (statistics st1) = unat (nextLabel st1)"
      using D(6) nl(1) by (simp add: stats)
    show "label (components st1 ! j) \<noteq> backgroundLabel \<and>
        unat (label (components st1 ! j)) < unat (nextLabel st1)"
      if "j < width * height * depth" "hasLabel (components st1 ! j)" for j
    proof (cases "j = r")
      case True
      then show ?thesis using c2r D(5) lt by (simp add: comps)
    next
      case False
      from old[OF that(1) False] that(2) keep'[OF that(1)] c2o[OF False] lt
      show ?thesis by (simp add: comps)
    qed
    show "i = j" if "i < width * height * depth" "j < width * height * depth"
        "hasLabel (components st1 ! i)" "hasLabel (components st1 ! j)"
        "label (components st1 ! i) = label (components st1 ! j)" for i j
    proof (cases "i = r"; cases "j = r")
      assume "i = r" "j = r" then show ?thesis by simp
    next
      assume a: "i = r" "j \<noteq> r"
      from old[OF that(2) a(2)] that(4,5) keep'[OF that(2)] c2o[OF a(2)] c2r a(1)
      show ?thesis by (simp add: comps)
    next
      assume a: "i \<noteq> r" "j = r"
      from old[OF that(1) a(1)] that(3,5) keep'[OF that(1)] c2o[OF a(1)] c2r a(2)
      show ?thesis by (simp add: comps)
    next
      assume a: "i \<noteq> r" "j \<noteq> r"
      from that(3-5) keep'[OF that(1)] keep'[OF that(2)] c2o[OF a(1)] c2o[OF a(2)]
      show ?thesis using D(8)[OF that(1,2)] by (simp add: comps)
    qed
    show "insert p A \<subseteq> {p. in_volume width height depth p}" using D(9) pv by simp
    show "outputBuffer st1 ! voxel_at width height q = backgroundLabel"
      if "q \<in> insert p A" "inputBuffer ! voxel_at width height q = backgroundColor" for q
      using that D(10)[of q] out[of q] fg by auto
    show "\<exists>r. root_of (components st1) (voxel_at width height q) r \<and> hasLabel (components st1 ! r) \<and>
             outputBuffer st1 ! voxel_at width height q = label (components st1 ! r)"
      if "q \<in> insert p A" "inputBuffer ! voxel_at width height q \<noteq> backgroundColor" for q
    proof (cases "q = p")
      case True
      have "root_of ?c2 ?k r" using rk eq2 by simp
      with c2r outp True show ?thesis unfolding comps by auto
    next
      case False
      with that have q: "q \<in> A" by simp
      from D(11)[OF q that(2)] obtain r' where r': "root_of ?c (voxel_at width height q) r'"
        "hasLabel (?c ! r')" "outputBuffer st ! voxel_at width height q = label (?c ! r')" by blast
      from r'(1) have b: "r' < width * height * depth" using D(2) by (auto dest: root_of_bounds)
      from r'(2) keep'[OF b] nolab have ne: "r' \<noteq> r" by auto
      have "root_of ?c2 (voxel_at width height q) r'" using r'(1) eq2 by simp
      moreover have "hasLabel (?c2 ! r')" using r'(2) keep'[OF b] c2o[OF ne] by simp
      moreover have "outputBuffer st1 ! voxel_at width height q = label (?c2 ! r')"
        using r'(3) keep'[OF b] c2o[OF ne] out[OF q] by simp
      ultimately show ?thesis unfolding comps by blast
    qed
    show "\<exists>q \<in> insert p A. unat (outputBuffer st1 ! voxel_at width height q) = m"
      if "m < unat (nextLabel st1)" "m \<noteq> unat backgroundLabel" for m
    proof (cases "m = unat (nextLabel st)")
      case True
      then show ?thesis using outp by auto
    next
      case False
      with top[OF that] have "m < unat (nextLabel st)" by simp
      from D(12)[OF this that(2)] obtain q where q: "q \<in> A"
        "unat (outputBuffer st ! voxel_at width height q) = m" by blast
      have "q \<in> insert p A" using q(1) by simp
      moreover have "unat (outputBuffer st1 ! voxel_at width height q) = m"
        using out[OF q(1)] q(2) by simp
      ultimately show ?thesis by blast
    qed
    show "inputLabel (statistics st1 ! unat backgroundLabel) = backgroundColor"
      if "unat backgroundLabel < unat (nextLabel st1)"
    proof (cases "unat backgroundLabel < unat (nextLabel st)")
      case True
      then show ?thesis using D(13) D(6) by (simp add: stats nth_append)
    next
      case False
      from bge[OF that False] show ?thesis by (simp add: stats)
    qed
  qed
  have "sum_list (map (\<lambda>e. unat (pixelCount e)) (statistics st1)) = card A"
    if "width * height * depth < 2 ^ 32"
    using ci that sum_list_zero_counts[OF ext] by (simp add: counts_inv_def stats)
  moreover have "unat backgroundLabel < unat (nextLabel st1)"
    if "\<exists>q \<in> A. inputBuffer ! voxel_at width height q = backgroundColor"
    using ci that lt by (auto simp: counts_inv_def)
  ultimately have "counts_inv width height depth inputBuffer backgroundColor backgroundLabel A st1"
    by (simp add: counts_inv_def)
  with li' show ?thesis by simp
qed

lemma write_label_step:
  assumes li: "labels_inv width height depth inputBuffer backgroundColor backgroundLabel comps0 A st"
    and ci: "counts_inv width height depth inputBuffer backgroundColor backgroundLabel A st"
    and pA: "p \<notin> A" and pv: "in_volume width height depth p"
  shows "\<exists>res. write_label inputBuffer backgroundColor backgroundLabel (voxel_at width height p) st = Some res \<and>
     (\<forall>st1. res = Inr st1 \<longrightarrow>
        labels_inv width height depth inputBuffer backgroundColor backgroundLabel comps0 (insert p A) st1 \<and>
        counts_inv width height depth inputBuffer backgroundColor backgroundLabel A st1)"
proof (cases "inputBuffer ! voxel_at width height p = backgroundColor")
  case True
  then show ?thesis
    using background_label_step[OF li ci pA pv True refl]
    by (simp add: write_label_def)
next
  case fg: False
  note D = labels_invD[OF li]
  let ?k = "voxel_at width height p"
  let ?nl = "nextLabel st"
  have k: "?k < length (components st)" using pv D(2) by (simp add: voxel_at_less)
  from Set_find_correct[OF D(1) k] obtain r c1 where
    fnd: "Set_find (components st) ?k = Some (r, c1)" and fp: "find_post (components st) ?k r c1"
    by blast
  from fp have r: "r < length c1" by (auto simp: find_post_def dest: root_of_bounds)
  let ?c2 = "c1[r := (c1 ! r)\<lparr>label := ?nl, hasLabel := True\<rparr>]"
  let ?new = "\<lparr>pixelCount = 0, inputLabel = inputBuffer ! ?k\<rparr>"
  let ?bge = "\<lparr>pixelCount = 0, inputLabel = backgroundColor\<rparr>"
  have c2r: "label (?c2 ! r) = ?nl" using r by simp
  show ?thesis
  proof (cases "hasLabel (c1 ! r)")
    case True
    have "write_label inputBuffer backgroundColor backgroundLabel ?k st =
        Some (Inr (st\<lparr>components := c1, outputBuffer := (outputBuffer st)[?k := label (c1 ! r)]\<rparr>))"
      using fg fnd True by (simp add: write_label_def assign_label_def)
    with known_label_step[OF li ci pA pv fg fp True refl] show ?thesis by simp
  next
    case nolab: False
    show ?thesis
    proof (cases "?nl = - 1")
      case True
      then have "write_label inputBuffer backgroundColor backgroundLabel ?k st = Some (Inl TooManyComponents)"
        using fg fnd nolab by (simp add: write_label_def assign_label_def Let_def)
      then show ?thesis by simp
    next
      case nmax: False
      have u1: "unat (?nl + 1) = Suc (unat ?nl)" using nmax by (rule unat_succ)
      show ?thesis
      proof (cases "?nl + 1 = backgroundLabel")
        case noskip: False
        define st1 where "st1 = st\<lparr>components := ?c2, nextLabel := ?nl + 1,
            statistics := statistics st @ [?new], outputBuffer := (outputBuffer st)[?k := ?nl]\<rparr>"
        have res: "write_label inputBuffer backgroundColor backgroundLabel ?k st = Some (Inr st1)"
          using fg fnd nolab nmax noskip c2r
          by (simp add: write_label_def assign_label_def Let_def st1_def)
        have "labels_inv width height depth inputBuffer backgroundColor backgroundLabel comps0 (insert p A) st1 \<and>
            counts_inv width height depth inputBuffer backgroundColor backgroundLabel A st1"
        proof (rule fresh_label_step[OF li ci pA pv fg fp nolab, where ext = "[?new]"])
          show "unat backgroundLabel < unat (nextLabel st1) \<Longrightarrow>
              \<not> unat backgroundLabel < unat ?nl \<Longrightarrow>
              inputLabel ((statistics st @ [?new]) ! unat backgroundLabel) = backgroundColor"
            using D(5) u1 by (auto simp: st1_def word_unat_eq_iff)
        qed (use u1 noskip in \<open>simp_all add: st1_def\<close>)
        with res show ?thesis by simp
      next
        case skip: True
        show ?thesis
        proof (cases "?nl + 1 = - 1")
          case True
          then have "write_label inputBuffer backgroundColor backgroundLabel ?k st = Some (Inl TooManyComponents)"
            using fg fnd nolab nmax skip by (simp add: write_label_def assign_label_def Let_def)
          then show ?thesis by simp
        next
          case nmax2: False
          have u2: "unat (?nl + 1 + 1) = Suc (Suc (unat ?nl))"
            using unat_succ[OF nmax2] u1 by simp
          have ub: "unat backgroundLabel = Suc (unat ?nl)" using skip u1 by auto
          define st1 where "st1 = st\<lparr>components := ?c2, nextLabel := ?nl + 1 + 1,
              statistics := statistics st @ [?new, ?bge], outputBuffer := (outputBuffer st)[?k := ?nl]\<rparr>"
          have res: "write_label inputBuffer backgroundColor backgroundLabel ?k st = Some (Inr st1)"
            using fg fnd nolab nmax skip nmax2 c2r
            by (simp add: write_label_def assign_label_def Let_def st1_def)
          have "labels_inv width height depth inputBuffer backgroundColor backgroundLabel comps0 (insert p A) st1 \<and>
              counts_inv width height depth inputBuffer backgroundColor backgroundLabel A st1"
          proof (rule fresh_label_step[OF li ci pA pv fg fp nolab, where ext = "[?new, ?bge]"])
            show "nextLabel st1 \<noteq> backgroundLabel"
              using u2 ub by (auto simp: st1_def)
            show "inputLabel ((statistics st @ [?new, ?bge]) ! unat backgroundLabel) = backgroundColor"
              using D(6) ub by (simp add: nth_append)
            show "m \<le> unat ?nl" if "m < unat (nextLabel st1)" "m \<noteq> unat backgroundLabel" for m
              using that u2 ub by (simp add: st1_def)
          qed (use u2 in \<open>simp_all add: st1_def\<close>)
          with res show ?thesis by simp
        qed
      qed
    qed
  qed
qed

lemma label_voxel_step:
  assumes li: "labels_inv width height depth inputBuffer backgroundColor backgroundLabel comps0 A st"
    and ci: "counts_inv width height depth inputBuffer backgroundColor backgroundLabel A st"
    and pA: "(u, v, w) \<notin> A" and pv: "in_volume width height depth (u, v, w)"
  shows "\<exists>res. label_voxel width height inputBuffer backgroundColor backgroundLabel w v u st = Some res \<and>
     (\<forall>st'. res = Inr st' \<longrightarrow>
        labels_inv width height depth inputBuffer backgroundColor backgroundLabel comps0 (insert (u, v, w) A) st' \<and>
        counts_inv width height depth inputBuffer backgroundColor backgroundLabel (insert (u, v, w) A) st')"
proof -
  let ?p = "(u, v, w)"
  have k: "voxel_index width height u v w = voxel_at width height ?p" by (simp add: voxel_at_def)
  from write_label_step[OF li ci pA pv] obtain res where
    res: "write_label inputBuffer backgroundColor backgroundLabel (voxel_at width height ?p) st = Some res"
    and post: "\<And>st1. res = Inr st1 \<Longrightarrow>
        labels_inv width height depth inputBuffer backgroundColor backgroundLabel comps0 (insert ?p A) st1 \<and>
        counts_inv width height depth inputBuffer backgroundColor backgroundLabel A st1" by blast
  show ?thesis
  proof (cases res)
    case (Inl e)
    with res show ?thesis by (simp add: label_voxel_def k)
  next
    case (Inr st1)
    from post[OF Inr] have a: "labels_inv width height depth inputBuffer backgroundColor backgroundLabel comps0 (insert ?p A) st1"
      and b: "counts_inv width height depth inputBuffer backgroundColor backgroundLabel A st1" by simp_all
    from count_pixel_step[OF a b pA] res Inr show ?thesis
      by (simp add: label_voxel_def k)
  qed
qed

lemma initial_labelling_inv:
  assumes p1: "pass1_inv width height depth inputBuffer backgroundColor B comps"
    and len: "length out0 = width * height * depth"
  shows "labels_inv width height depth inputBuffer backgroundColor backgroundLabel comps {}
           (initial_labelling backgroundColor backgroundLabel comps out0) \<and>
         counts_inv width height depth inputBuffer backgroundColor backgroundLabel {}
           (initial_labelling backgroundColor backgroundLabel comps out0)"
proof -
  from p1 have f: "forest comps" and l: "length comps = width * height * depth"
    and nolab: "\<And>j. j < width * height * depth \<Longrightarrow> \<not> hasLabel (comps ! j)"
    unfolding pass1_inv_def by blast+
  show ?thesis
  proof (cases "0 = backgroundLabel")
    case True
    then have st: "initial_labelling backgroundColor backgroundLabel comps out0 =
        \<lparr>components = comps, nextLabel = 1,
         statistics = [\<lparr>pixelCount = 0, inputLabel = backgroundColor\<rparr>], outputBuffer = out0\<rparr>"
      by (simp add: initial_labelling_def)
    have "labels_inv width height depth inputBuffer backgroundColor backgroundLabel comps {}
           (initial_labelling backgroundColor backgroundLabel comps out0)"
      unfolding st
      by (rule labels_invI) (use f l len nolab True[symmetric] in \<open>simp_all\<close>)
    then show ?thesis by (simp add: counts_inv_def st)
  next
    case False
    then have st: "initial_labelling backgroundColor backgroundLabel comps out0 =
        \<lparr>components = comps, nextLabel = 0, statistics = [], outputBuffer = out0\<rparr>"
      by (simp add: initial_labelling_def)
    have "labels_inv width height depth inputBuffer backgroundColor backgroundLabel comps {}
           (initial_labelling backgroundColor backgroundLabel comps out0)"
      unfolding st
      by (rule labels_invI) (use f l len nolab False in \<open>simp_all\<close>)
    then show ?thesis by (simp add: counts_inv_def st)
  qed
qed

lemma assign_labels_correct:
  fixes st0 :: "('t, 'u::len word) labelling"
  assumes li: "labels_inv width height depth inputBuffer backgroundColor backgroundLabel comps0 {} st0"
    and ci: "counts_inv width height depth inputBuffer backgroundColor backgroundLabel {} st0"
  shows "\<exists>res. assign_labels width height depth inputBuffer backgroundColor backgroundLabel st0 = Some res \<and>
     (\<forall>st. res = Inr st \<longrightarrow>
        labels_inv width height depth inputBuffer backgroundColor backgroundLabel comps0
          {p. in_volume width height depth p} st \<and>
        counts_inv width height depth inputBuffer backgroundColor backgroundLabel
          {p. in_volume width height depth p} st)"
proof -
  define I where "I = (\<lambda>A (st :: ('t, 'u word) labelling).
      labels_inv width height depth inputBuffer backgroundColor backgroundLabel comps0 A st \<and>
      counts_inv width height depth inputBuffer backgroundColor backgroundLabel A st)"
  let ?body = "\<lambda>(u, v, w). label_voxel width height inputBuffer backgroundColor backgroundLabel w v u"
  have "\<exists>res. for_each (scan_order width height depth) ?body st0 = Some res \<and>
     (\<forall>st. res = Inr st \<longrightarrow> I ({} \<union> set (scan_order width height depth)) st)"
  proof (rule for_each_rule[where I = I])
    show "I {} st0" using li ci by (simp add: I_def)
    show "distinct (scan_order width height depth)" by (rule distinct_scan_order)
    show "{} \<inter> set (scan_order width height depth) = {}" by simp
    show "\<exists>res. ?body x t = Some res \<and> (\<forall>t'. res = Inr t' \<longrightarrow> I (insert x A) t')"
      if "I A t" "x \<in> set (scan_order width height depth)" "x \<notin> A" for x A t
    proof -
      obtain u v w where x: "x = (u, v, w)" by (cases x)
      from that(2) have pv: "in_volume width height depth (u, v, w)"
        by (simp add: set_scan_order x)
      from that(1) have a: "labels_inv width height depth inputBuffer backgroundColor backgroundLabel comps0 A t"
        and b: "counts_inv width height depth inputBuffer backgroundColor backgroundLabel A t"
        by (simp_all add: I_def)
      from that(3) have "(u, v, w) \<notin> A" by (simp add: x)
      from label_voxel_step[OF a b this pv] show ?thesis by (simp add: x I_def)
    qed
  qed
  then show ?thesis
    by (simp add: assign_labels_def for_each_scan set_scan_order I_def)
qed

lemma findConnectedComponents3d_correct:
  fixes outputBuffer0 :: "'u::len word list"
  assumes len: "length outputBuffer0 = width * height * depth"
  shows "\<exists>res. findConnectedComponents3d width height depth inputBuffer backgroundColor
            outputBuffer0 backgroundLabel = Some res \<and>
     (\<forall>out stats. res = Inr (out, stats) \<longrightarrow>
        (\<exists>comps st.
           pass1_inv width height depth inputBuffer backgroundColor
             {p. in_volume width height depth p} (comps :: 'u word Set_node list) \<and>
           labels_inv width height depth inputBuffer backgroundColor backgroundLabel comps
             {p. in_volume width height depth p} st \<and>
           counts_inv width height depth inputBuffer backgroundColor backgroundLabel
             {p. in_volume width height depth p} st \<and>
           out = outputBuffer st \<and> stats = statistics st))"
proof -
  from build_forest_correct[of width height depth inputBuffer backgroundColor]
  obtain r1 where r1: "build_forest width height depth inputBuffer backgroundColor
          (replicate (width * height * depth) (Set_init :: 'u word Set_node)) = Some r1"
    and p1: "\<And>s. r1 = Inr s \<Longrightarrow> pass1_inv width height depth inputBuffer backgroundColor
          {p. in_volume width height depth p} s" by blast
  show ?thesis
  proof (cases r1)
    case (Inl e)
    with r1 show ?thesis by (simp add: findConnectedComponents3d_def)
  next
    case (Inr comps)
    note inv1 = p1[OF Inr]
    from initial_labelling_inv[OF inv1 len, of backgroundLabel]
    have a: "labels_inv width height depth inputBuffer backgroundColor backgroundLabel comps {}
           (initial_labelling backgroundColor backgroundLabel comps outputBuffer0)"
      and b: "counts_inv width height depth inputBuffer backgroundColor backgroundLabel {}
           (initial_labelling backgroundColor backgroundLabel comps outputBuffer0)" by simp_all
    from assign_labels_correct[OF a b] obtain r2 where
      r2: "assign_labels width height depth inputBuffer backgroundColor backgroundLabel
             (initial_labelling backgroundColor backgroundLabel comps outputBuffer0) = Some r2"
      and p2: "\<And>st. r2 = Inr st \<Longrightarrow>
        labels_inv width height depth inputBuffer backgroundColor backgroundLabel comps
          {p. in_volume width height depth p} st \<and>
        counts_inv width height depth inputBuffer backgroundColor backgroundLabel
          {p. in_volume width height depth p} st" by blast
    show ?thesis
    proof (cases r2)
      case (Inl e)
      with r1 r2 \<open>r1 = Inr comps\<close> show ?thesis by (simp add: findConnectedComponents3d_def)
    next
      case (Inr st)
      from p2[OF Inr] inv1 r1 r2 Inr \<open>r1 = Inr comps\<close> show ?thesis
        by (auto simp: findConnectedComponents3d_def)
    qed
  qed
qed

subsection \<open>Paths and the step relation\<close>




subsection \<open>What a successful call returns\<close>





subsection \<open>How the engine can fail\<close>










section \<open>Rows of the convolver\<close>

lemma mirror_prefix:
  fixes row :: "'f list"
  assumes len: "length t0 = length row + 2 * r" and rw: "r \<le> length row"
    and mid: "\<And>i. i < length row \<Longrightarrow> t0 ! (r + i) = row ! i"
  shows "n \<le> r \<Longrightarrow>
     t' = fold (\<lambda>u t.
            (let t1 = t[r - 1 - u := t ! (r + u)]
             in t1[r + length row + u := t1 ! (r + length row - 1 - u)])) [0..<n] t0 \<Longrightarrow>
     length t' = length row + 2 * r \<and>
     (\<forall>i < length row. t' ! (r + i) = row ! i) \<and>
     (\<forall>i < n. t' ! (r - 1 - i) = row ! i \<and> t' ! (r + length row + i) = row ! (length row - 1 - i))"
proof (induction n arbitrary: t')
  case 0
  then show ?case using len mid by simp
next
  case (Suc n)
  let ?W = "length row"
  let ?step = "\<lambda>u t. (let t1 = t[r - 1 - u := t ! (r + u)]
             in t1[r + ?W + u := t1 ! (r + ?W - 1 - u)])"
  define t where "t = fold ?step [0..<n] t0"
  from Suc.prems have n: "n < r" by simp
  then have "n \<le> r" by simp
  from Suc.IH[OF this t_def] have IH: "length t = ?W + 2 * r"
    "\<And>i. i < ?W \<Longrightarrow> t ! (r + i) = row ! i"
    "\<And>i. i < n \<Longrightarrow> t ! (r - 1 - i) = row ! i \<and> t ! (r + ?W + i) = row ! (?W - 1 - i)"
    by blast+
  define t1 where "t1 = t[r - 1 - n := t ! (r + n)]"
  have t': "t' = t1[r + ?W + n := t1 ! (r + ?W - 1 - n)]"
    using Suc.prems(2) by (simp add: t_def t1_def Let_def)
  have nW: "n < ?W" using n rw by simp
  have a: "t ! (r + n) = row ! n" using IH(2)[OF nW] .
  have "r + ?W - 1 - n = r + (?W - 1 - n)" using nW by simp
  moreover have "?W - 1 - n < ?W" using nW by simp
  ultimately have b: "t ! (r + ?W - 1 - n) = row ! (?W - 1 - n)" using IH(2) by simp
  have b1: "t1 ! (r + ?W - 1 - n) = row ! (?W - 1 - n)"
    using b n nW by (simp add: t1_def)
  have len2: "length t' = ?W + 2 * r" using IH(1) by (simp add: t1_def t')
  have mid2: "t' ! (r + i) = row ! i" if "i < ?W" for i
    using IH(2)[OF that] that n by (simp add: t1_def t')
  have pads: "t' ! (r - 1 - i) = row ! i \<and> t' ! (r + ?W + i) = row ! (?W - 1 - i)"
    if "i < Suc n" for i
  proof (cases "i = n")
    case True
    have "t' ! (r - 1 - n) = row ! n"
      using a n IH(1) by (simp add: t1_def t')
    moreover have "t' ! (r + ?W + n) = row ! (?W - 1 - n)"
      using b1 n IH(1) by (simp add: t1_def t')
    ultimately show ?thesis using True by simp
  next
    case False
    with that have i: "i < n" by simp
    from IH(3)[OF i] i n show ?thesis by (simp add: t1_def t')
  qed
  show ?case
  proof (intro conjI allI impI)
    show "length t' = ?W + 2 * r" by (rule len2)
    show "t' ! (r + i) = row ! i" if "i < ?W" for i using that by (rule mid2)
    show "t' ! (r - 1 - i) = row ! i" if "i < Suc n" for i using pads[OF that] by simp
    show "t' ! (r + ?W + i) = row ! (?W - 1 - i)" if "i < Suc n" for i using pads[OF that] by simp
  qed
qed

lemma padded_row_shape:
  fixes Reader :: "'p \<Rightarrow> 'f::{zero,plus,times}"
  assumes "r \<le> width"
  shows "length (padded_row Reader buffer start hop width r) = width + 2 * r"
    and "\<And>i. i < width \<Longrightarrow>
           padded_row Reader buffer start hop width r ! (r + i) = Reader (buffer ! (start + i * hop))"
    and "\<And>i. i < r \<Longrightarrow>
           padded_row Reader buffer start hop width r ! (r - 1 - i) = Reader (buffer ! (start + i * hop))"
    and "\<And>i. i < r \<Longrightarrow>
           padded_row Reader buffer start hop width r ! (r + width + i) =
           Reader (buffer ! (start + (width - 1 - i) * hop))"
proof -
  define row where "row = read_row Reader buffer start hop width"
  define t0 where "t0 = replicate r (0 :: 'f) @ row @ replicate r 0"
  have lr: "length row = width" by (simp add: row_def read_row_def)
  have rowi: "row ! i = Reader (buffer ! (start + i * hop))" if "i < width" for i
    using that by (simp add: row_def read_row_def)
  have len: "length t0 = length row + 2 * r" by (simp add: t0_def)
  have mid: "t0 ! (r + i) = row ! i" if "i < length row" for i
    using that by (simp add: t0_def nth_append)
  have pr: "padded_row Reader buffer start hop width r =
      fold (\<lambda>u t. (let t1 = t[r - 1 - u := t ! (r + u)]
             in t1[r + length row + u := t1 ! (r + length row - 1 - u)])) [0..<r] t0"
    unfolding padded_row_def mirror_edges_def t0_def lr unfolding row_def by (rule refl)
  from mirror_prefix[OF len _ mid le_refl pr] assms lr
  have P: "length (padded_row Reader buffer start hop width r) = width + 2 * r"
    "\<And>i. i < width \<Longrightarrow> padded_row Reader buffer start hop width r ! (r + i) = row ! i"
    "\<And>i. i < r \<Longrightarrow> padded_row Reader buffer start hop width r ! (r - 1 - i) = row ! i \<and>
        padded_row Reader buffer start hop width r ! (r + width + i) = row ! (width - 1 - i)"
    by simp_all
  show "length (padded_row Reader buffer start hop width r) = width + 2 * r" by (rule P(1))
  show "\<And>i. i < width \<Longrightarrow>
           padded_row Reader buffer start hop width r ! (r + i) = Reader (buffer ! (start + i * hop))"
    using P(2) rowi by simp
  show "\<And>i. i < r \<Longrightarrow>
           padded_row Reader buffer start hop width r ! (r - 1 - i) = Reader (buffer ! (start + i * hop))"
    using P(3) rowi assms by simp
  show "\<And>i. i < r \<Longrightarrow>
           padded_row Reader buffer start hop width r ! (r + width + i) =
           Reader (buffer ! (start + (width - 1 - i) * hop))"
    using P(3) rowi[of "width - 1 - _"] assms by simp
qed

lemma write_prefix:
  "n \<le> length b \<Longrightarrow> fold (\<lambda>u b. b[u := f u]) [0..<n] b = map f [0..<n] @ drop n b"
proof (induction n)
  case 0
  then show ?case by simp
next
  case (Suc n)
  then have "fold (\<lambda>u b. b[u := f u]) [0..<Suc n] b = (map f [0..<n] @ drop n b)[n := f n]"
    by simp
  also have "\<dots> = map f [0..<n] @ (drop n b)[0 := f n]"
    by (simp add: list_update_append)
  also have "(drop n b)[0 := f n] = f n # drop (Suc n) b"
    using Suc.prems by (metis Cons_nth_drop_Suc Suc_le_lessD list_update_code(2))
  finally show ?case by simp
qed

lemma write_row_whole:
  "length buffer = width \<Longrightarrow>
   write_row Writer outputRow 0 1 width buffer = map (\<lambda>u. Writer (outputRow ! u)) [0..<width]"
  using write_prefix[of width buffer "\<lambda>u. Writer (outputRow ! u)"]
  by (simp add: write_row_def)

lemma convolve_single_row:
  fixes Reader :: "'p \<Rightarrow> 'f::{zero,plus,times}"
  assumes "length buffer = width"
  shows "convolve Reader Writer width 1 buffer 0 1 width kernel' r =
     map (\<lambda>u. Writer (foldl (\<lambda>sum k. sum + kernel' ! k * padded_row Reader buffer 0 1 width r ! (u + k))
                        0 [0..<2 * r + 1])) [0..<width]"
proof -
  have one: "[0..<(1::nat)] = [0]" by simp
  have w: "width + 2 * r - 2 * r = width" by simp
  show ?thesis
    unfolding convolve_def one fold_simps id_apply o_apply Let_def mult_zero_left add_0_right
      convolve_reference_def w write_row_whole[OF assms]
    by (simp add: comp_def)
qed





section \<open>Properties of the kernel builder\<close>













section \<open>Claims about the disjoint set\<close>

text \<open>
  Claim C3. On a well-formed forest (every parent link stays inside the node array and leads to
  a node of strictly larger rank, which is what zero-initialisation establishes and every
  operation preserves):

  \<^item> \<open>find(n)\<close> always returns, and what it returns is the root of the chain of \<open>n\<close> itself: the
    node \<open>r\<close> reached from \<open>n\<close> by following parent links, whose parent is nil. Afterwards every
    node on the chain walked from \<open>n\<close> points directly at \<open>r\<close>, and nothing else has changed:
    each node is either on that chain, and then it is its old self with parent \<open>r\<close>, or it is
    untouched. So every node of every tree keeps its root, all ranks and labels are unchanged,
    and the forest stays well formed.

  \<^item> \<open>unite(x, y)\<close> always returns. With \<open>xr\<close> the root of \<open>x\<close> and \<open>yr\<close> the root of \<open>y\<close> in the
    forest it is given, and \<open>s2\<close> the forest after the two \<open>find\<close>s (same roots, ranks and
    labels as before), the result is: \<open>s2\<close> itself when \<open>xr = yr\<close>; otherwise the lower-rank
    root gets the higher-rank root as parent, all ranks unchanged; on equal ranks \<open>yr\<close> gets
    parent \<open>xr\<close> and the rank of \<open>xr\<close> is incremented, except that the call fails with
    \<open>GraphOverflow\<close> when that rank is 65535. This is the union step in the words of the
    specification (\<open>unite_spec\<close>). A successful call leaves a well-formed forest in which no
    rank has decreased and in which two nodes are in the same set exactly when they were
    before or when one was in the set of \<open>x\<close> and the other in the set of \<open>y\<close>.
\<close>

theorem unite_find_contract:
  assumes "forest s" and "x < length s" and "y < length s" and "n < length s"
  shows "(\<exists>r s'. Set_find s n = Some (r, s') \<and> root_of s n r \<and> r < length s \<and>
            parent (s ! r) = None \<and> parent (s' ! r) = None \<and>
            (\<forall>k. on_chain s n k \<longrightarrow> parent (s' ! k) = Some r) \<and>
            length s' = length s \<and>
            (\<forall>j < length s. s' ! j =
               (if on_chain s n j then (s ! j)\<lparr>parent := Some r\<rparr> else s ! j)) \<and>
            (\<forall>j q. root_of s' j q \<longleftrightarrow> root_of s j q) \<and>
            forest s' \<and>
            (\<forall>j < length s. rank (s' ! j) = rank (s ! j))) \<and>
         (\<exists>xr yr s2. root_of s x xr \<and> root_of s y yr \<and>
            (\<exists>s1. Set_find s x = Some (xr, s1) \<and> Set_find s1 y = Some (yr, s2)) \<and>
            forest s2 \<and> length s2 = length s \<and>
            (\<forall>j q. root_of s2 j q \<longleftrightarrow> root_of s j q) \<and>
            (\<forall>j < length s. rank (s2 ! j) = rank (s ! j) \<and> hasLabel (s2 ! j) = hasLabel (s ! j)
               \<and> label (s2 ! j) = label (s ! j)) \<and>
            Set_unite s x y =
              (if xr = yr then Some (Inr s2)
               else if rank (s ! xr) < rank (s ! yr) then
                 Some (Inr (s2[xr := (s2 ! xr)\<lparr>parent := Some yr\<rparr>]))
               else if rank (s ! yr) < rank (s ! xr) then
                 Some (Inr (s2[yr := (s2 ! yr)\<lparr>parent := Some xr\<rparr>]))
               else if rank (s ! xr) = 65535 then Some (Inl GraphOverflow)
               else Some (Inr (s2[yr := (s2 ! yr)\<lparr>parent := Some xr\<rparr>,
                                  xr := (s2 ! xr)\<lparr>rank := rank (s ! xr) + 1\<rparr>])))) \<and>
         Set_unite s x y = unite_spec s x y \<and>
         (\<exists>res. Set_unite s x y = Some res \<and>
            (\<forall>s'. res = Inr s' \<longrightarrow> forest s' \<and> length s' = length s \<and>
               (\<forall>j < length s. rank (s ! j) \<le> rank (s' ! j)) \<and>
               (\<forall>i j. same_set s' i j \<longleftrightarrow>
                  same_set s i j \<or> (same_set s i x \<and> same_set s y j)
                    \<or> (same_set s i y \<and> same_set s x j))))"
proof (intro conjI)
  from Set_find_correct[OF assms(1,4)] obtain r s' where
    f: "Set_find s n = Some (r, s')" and p: "find_post s n r s'" by blast
  from p have r: "root_of s n r" and r': "root_of s' n r" by (simp_all add: find_post_def)
  from r have 1: "r < length s" "parent (s ! r) = None"
    by (auto dest: root_of_is_root root_of_bounds)
  from r' have 2: "parent (s' ! r) = None" by (rule root_of_is_root)
  from p have 3: "\<forall>k. on_chain s n k \<longrightarrow> parent (s' ! k) = Some r"
    and 4: "length s' = length s"
    and 5: "\<forall>j < length s. s' ! j =
               (if on_chain s n j then (s ! j)\<lparr>parent := Some r\<rparr> else s ! j)"
    and 6: "\<forall>j q. root_of s' j q \<longleftrightarrow> root_of s j q"
    and 7: "forest s'"
    and 8: "\<forall>j < length s. rank (s' ! j) = rank (s ! j)"
    unfolding find_post_def by blast+
  from f r 1 2 3 4 5 6 7 8
  show "\<exists>r s'. Set_find s n = Some (r, s') \<and> root_of s n r \<and> r < length s \<and>
            parent (s ! r) = None \<and> parent (s' ! r) = None \<and>
            (\<forall>k. on_chain s n k \<longrightarrow> parent (s' ! k) = Some r) \<and>
            length s' = length s \<and>
            (\<forall>j < length s. s' ! j =
               (if on_chain s n j then (s ! j)\<lparr>parent := Some r\<rparr> else s ! j)) \<and>
            (\<forall>j q. root_of s' j q \<longleftrightarrow> root_of s j q) \<and>
            forest s' \<and>
            (\<forall>j < length s. rank (s' ! j) = rank (s ! j))"
    by blast
next
  from Set_unite_roots[OF assms(1-3)]
  show "\<exists>xr yr s2. root_of s x xr \<and> root_of s y yr \<and>
            (\<exists>s1. Set_find s x = Some (xr, s1) \<and> Set_find s1 y = Some (yr, s2)) \<and>
            forest s2 \<and> length s2 = length s \<and>
            (\<forall>j q. root_of s2 j q \<longleftrightarrow> root_of s j q) \<and>
            (\<forall>j < length s. rank (s2 ! j) = rank (s ! j) \<and> hasLabel (s2 ! j) = hasLabel (s ! j)
               \<and> label (s2 ! j) = label (s ! j)) \<and>
            Set_unite s x y =
              (if xr = yr then Some (Inr s2)
               else if rank (s ! xr) < rank (s ! yr) then
                 Some (Inr (s2[xr := (s2 ! xr)\<lparr>parent := Some yr\<rparr>]))
               else if rank (s ! yr) < rank (s ! xr) then
                 Some (Inr (s2[yr := (s2 ! yr)\<lparr>parent := Some xr\<rparr>]))
               else if rank (s ! xr) = 65535 then Some (Inl GraphOverflow)
               else Some (Inr (s2[yr := (s2 ! yr)\<lparr>parent := Some xr\<rparr>,
                                  xr := (s2 ! xr)\<lparr>rank := rank (s ! xr) + 1\<rparr>])))"
    by blast
next
  show "Set_unite s x y = unite_spec s x y" by (rule Set_unite_eq_spec)
next
  from Set_unite_correct[OF assms(1-3)]
  show "\<exists>res. Set_unite s x y = Some res \<and>
            (\<forall>s'. res = Inr s' \<longrightarrow> forest s' \<and> length s' = length s \<and>
               (\<forall>j < length s. rank (s ! j) \<le> rank (s' ! j)) \<and>
               (\<forall>i j. same_set s' i j \<longleftrightarrow>
                  same_set s i j \<or> (same_set s i x \<and> same_set s y j)
                    \<or> (same_set s i y \<and> same_set s x j)))"
    by (auto simp: unite_post_def)
qed

lemma forest_two_chain:
  "forest [\<lparr>rank = 0, hasLabel = False, label = 0 :: 16 word, parent = Some 2\<rparr>,
           \<lparr>rank = 0, hasLabel = False, label = 0, parent = None\<rparr>,
           \<lparr>rank = 1, hasLabel = False, label = 0, parent = Some 3\<rparr>,
           \<lparr>rank = 2, hasLabel = False, label = 0, parent = None\<rparr>]"
  by (simp add: forest_def nth_Cons' less_Suc_eq numeral_eq_Suc All_less_Suc)

theorem unite_find_contract_witness:
  "Set_unite [\<lparr>rank = 0, hasLabel = False, label = 0 :: 16 word, parent = Some 2\<rparr>,
           \<lparr>rank = 0, hasLabel = False, label = 0, parent = None\<rparr>,
           \<lparr>rank = 1, hasLabel = False, label = 0, parent = Some 3\<rparr>,
           \<lparr>rank = 2, hasLabel = False, label = 0, parent = None\<rparr>] 0 1
   = Some (Inr [\<lparr>rank = 0, hasLabel = False, label = 0 :: 16 word, parent = Some 3\<rparr>,
           \<lparr>rank = 0, hasLabel = False, label = 0, parent = Some 3\<rparr>,
           \<lparr>rank = 1, hasLabel = False, label = 0, parent = Some 3\<rparr>,
           \<lparr>rank = 2, hasLabel = False, label = 0, parent = None\<rparr>])
   \<and> (\<exists>r s'. Set_find [\<lparr>rank = 0, hasLabel = False, label = 0 :: 16 word, parent = Some 2\<rparr>,
           \<lparr>rank = 0, hasLabel = False, label = 0, parent = None\<rparr>,
           \<lparr>rank = 1, hasLabel = False, label = 0, parent = Some 3\<rparr>,
           \<lparr>rank = 2, hasLabel = False, label = 0, parent = None\<rparr>] 0 = Some (r, s')
         \<and> root_of [\<lparr>rank = 0, hasLabel = False, label = 0 :: 16 word, parent = Some 2\<rparr>,
           \<lparr>rank = 0, hasLabel = False, label = 0, parent = None\<rparr>,
           \<lparr>rank = 1, hasLabel = False, label = 0, parent = Some 3\<rparr>,
           \<lparr>rank = 2, hasLabel = False, label = 0, parent = None\<rparr>] 0 r
         \<and> parent (s' ! r) = None)"
proof -
  let ?s = "[\<lparr>rank = 0, hasLabel = False, label = 0 :: 16 word, parent = Some 2\<rparr>,
           \<lparr>rank = 0, hasLabel = False, label = 0, parent = None\<rparr>,
           \<lparr>rank = 1, hasLabel = False, label = 0, parent = Some 3\<rparr>,
           \<lparr>rank = 2, hasLabel = False, label = 0, parent = None\<rparr>]"
  have len: "(0::nat) < length ?s" "(1::nat) < length ?s" by simp_all
  note c = unite_find_contract[OF forest_two_chain len(1) len(2) len(1)]
  from c have a: "Set_unite ?s 0 1 = unite_spec ?s 0 1" by (elim conjE)
  from c have b: "\<exists>r s'. Set_find ?s 0 = Some (r, s') \<and> root_of ?s 0 r \<and> parent (s' ! r) = None"
    by (elim conjE) blast
  have "unite_spec ?s 0 1 = Some (Inr [\<lparr>rank = 0, hasLabel = False, label = 0 :: 16 word, parent = Some 3\<rparr>,
           \<lparr>rank = 0, hasLabel = False, label = 0, parent = Some 3\<rparr>,
           \<lparr>rank = 1, hasLabel = False, label = 0, parent = Some 3\<rparr>,
           \<lparr>rank = 2, hasLabel = False, label = 0, parent = None\<rparr>])"
    by code_simp
  with a b show ?thesis by simp
qed

section \<open>Claims about connected components\<close>

text \<open>
  Throughout, a volume is a list of voxels in scan order (index \<open>w * width * height + v * width + u\<close>,
  the layout both entry points of the wrapper pass), and the input and output buffers have one
  cell per voxel. Indexing the statistics vector past its end is undefined in the source; the
  model reports it as \<open>UndefinedBehaviour\<close>.
\<close>



text \<open>
  Claim C8, on inputs where it fails. With background label 1 on a 1 x 1 x 1 volume whose only
  voxel is background, no statistics entry has been pushed when that voxel is counted, so the
  source indexes an empty vector at position 1. With background label 5 on a 1 x 1 x 1 volume
  whose only voxel is foreground, the call returns a table with the single entry of that
  component and no entry at index 5.
\<close>

theorem background_entry_missing:
  "findConnectedComponents3d 1 1 1 [0 :: 8 word] 0 [0 :: 16 word] 1 = Some (Inl UndefinedBehaviour) \<and>
   findConnectedComponents3d 1 1 1 [7 :: 8 word] 0 [0 :: 16 word] 5 =
     Some (Inr ([0], [\<lparr>pixelCount = 1, inputLabel = 7\<rparr>]))"
  by (rule conjI; code_simp)

lemma background_entry_for_label_zero:
  fixes outputBuffer0 :: "'u::len word list"
  assumes "length outputBuffer0 = width * height * depth"
    and "findConnectedComponents3d width height depth inputBuffer backgroundColor
            outputBuffer0 0 = Some (Inr (out, stats))"
  shows "stats \<noteq> [] \<and> inputLabel (stats ! 0) = backgroundColor \<and>
         (\<forall>p. in_volume width height depth p \<and>
              inputBuffer ! voxel_at width height p = backgroundColor \<longrightarrow>
              out ! voxel_at width height p = 0)"
proof -
  from findConnectedComponents3d_correct[OF assms(1), of inputBuffer backgroundColor 0] assms(2)
  obtain comps :: "'u word Set_node list" and st where
    li: "labels_inv width height depth inputBuffer backgroundColor 0 comps
             {p. in_volume width height depth p} st"
    and o: "out = outputBuffer st" "stats = statistics st" by auto
  note D = labels_invD[OF li]
  from D(5) have "0 < unat (nextLabel st)" by (simp add: unat_gt_0)
  with D(6) D(13) D(10) o show ?thesis by auto
qed






section \<open>Claims about the convolver\<close>

text \<open>
  Claim C2, on an input where it fails: a 1 x 1 x 1 volume of 16-bit pixels holding -3,
  convolved along X with the radius-0 kernel [1]. The row buffer holds -3.0, the dot product is
  0 + 1 * (-3.0) = -3.0, and the 16-bit writer stores (short)(-3.0 + 0.5), which truncates
  towards zero to -2. All these values are exact in single precision.
\<close>

theorem identity_kernel_changes_negative_short:
  "convolve1d readerT_short writerT_short 1 1 1 [- 3] 1 1 1 0 [1] 0 = Inr [- 2]"
  by (simp add: convolve1d_def convolve_def padded_row_def read_row_def mirror_edges_def
        write_row_def convolve_reference_def readerT_short_def writerT_short_def
        truncate_toward_zero_def Let_def)

lemma writerT_uchar_of_nat:
  "n < 256 \<Longrightarrow> writerT_uchar (0 + 1 * real n) = word_of_int (int n)"
proof -
  assume n: "n < 256"
  have f: "\<lfloor>real n + 1 / 2\<rfloor> = int n" by linarith
  show ?thesis
  proof (cases "n = 0")
    case True
    then show ?thesis by (simp add: writerT_uchar_def)
  next
    case False
    then have "\<not> real n \<le> 0" "\<not> real n > 255" "0 \<le> real n + 1 / 2" using n by simp_all
    with f show ?thesis by (simp add: writerT_uchar_def truncate_toward_zero_def)
  qed
qed

lemma uchar_codec_round_trip: "writerT_uchar (0 + 1 * readerT_uchar p) = p"
proof -
  have "unat p < 256" using unsigned_less[of p, where 'a = nat] by simp
  then have "writerT_uchar (0 + 1 * real (unat p)) = word_of_int (int (unat p))"
    by (rule writerT_uchar_of_nat)
  then show ?thesis unfolding readerT_uchar_def by simp
qed

lemma writerT_short_of_int:
  assumes "- 32768 \<le> n" "n \<le> 32767"
  shows "writerT_short (0 + 1 * real_of_int n) =
         word_of_int (if n < 0 \<and> n \<noteq> - 32768 then n + 1 else n)"
proof -
  have fl: "\<lfloor>real_of_int n + 1 / 2\<rfloor> = n" by linarith
  have ce: "\<lceil>real_of_int n + 1 / 2\<rceil> = n + 1" by linarith
  consider "n = - 32768" | "- 32768 < n" "n < 0" | "0 \<le> n" using assms(1) by linarith
  then show ?thesis
  proof cases
    case 1
    then show ?thesis by (simp add: writerT_short_def Let_def)
  next
    case 2
    then have "\<not> 0 \<le> real_of_int n + 1 / 2" "\<not> real_of_int n \<le> - 32768"
      "\<not> real_of_int n > 32767" by linarith+
    with 2 ce show ?thesis
      by (simp add: writerT_short_def Let_def truncate_toward_zero_def)
  next
    case 3
    then have "0 \<le> real_of_int n + 1 / 2" "\<not> real_of_int n \<le> - 32768"
      "\<not> real_of_int n > 32767" using assms(2) by linarith+
    with 3 fl show ?thesis
      by (simp add: writerT_short_def Let_def truncate_toward_zero_def)
  qed
qed

lemma short_codec_round_trip:
  "writerT_short (0 + 1 * readerT_short p) =
     (if sint p < 0 \<and> sint p \<noteq> - 32768 then p + 1 else p)"
proof -
  have lo: "- 32768 \<le> sint p" using sint_ge[of p] by simp
  have hi: "sint p \<le> 32767" using sint_lt[of p] by simp
  have w: "word_of_int (sint p) = p" by simp
  have w1: "word_of_int (sint p + 1) = p + 1" by simp
  show ?thesis
  proof (cases "sint p < 0 \<and> sint p \<noteq> - 32768")
    case True
    then have "writerT_short (0 + 1 * real_of_int (sint p)) = word_of_int (sint p + 1)"
      using writerT_short_of_int[OF lo hi] by presburger
    with True w1 show ?thesis unfolding readerT_short_def by presburger
  next
    case False
    then have "writerT_short (0 + 1 * real_of_int (sint p)) = word_of_int (sint p)"
      using writerT_short_of_int[OF lo hi] by presburger
    with False w show ?thesis unfolding readerT_short_def by presburger
  qed
qed

text \<open>
  Claim C5, as the code has it. For a row of width W and a kernel of radius r with W > 2r the row
  convolver builds a buffer of length W + 2r that holds the row at [r, r + W) and satisfies
  padded[r - 1 - i] = padded[r + i] and padded[r + W + i] = padded[r + W - 1 - i] for i < r, so
  the boundary sample itself is repeated (padded[r - 1] = padded[r]); it then writes back, for
  each u, the sum over k of kernel[k] * padded[u + k], accumulated from 0 in order of k. The row
  [10, 20, 30, 40] with kernel [0.25, 0.5, 0.25] becomes [12.5, 20, 30, 37.5].
\<close>

theorem row_convolver_mirror_and_dot_products:
  fixes Reader :: "'p \<Rightarrow> 'f::{zero,plus,times}"
  assumes "length row = width" and "2 * r < width"
  shows "length (padded_row Reader row 0 1 width r) = width + 2 * r \<and>
         (\<forall>i < width. padded_row Reader row 0 1 width r ! (r + i) = Reader (row ! i)) \<and>
         (\<forall>i < r. padded_row Reader row 0 1 width r ! (r - 1 - i) =
                   padded_row Reader row 0 1 width r ! (r + i) \<and>
                 padded_row Reader row 0 1 width r ! (r + width + i) =
                   padded_row Reader row 0 1 width r ! (r + width - 1 - i)) \<and>
         convolve Reader Writer width 1 row 0 1 width kernel' r =
           map (\<lambda>u. Writer (foldl (\<lambda>sum k. sum + kernel' ! k * padded_row Reader row 0 1 width r ! (u + k))
                              0 [0..<2 * r + 1])) [0..<width] \<and>
         convolve readerT_float writerT_float 4 1 [10, 20, 30, 40] 0 1 4 [1 / 4, 1 / 2, 1 / 4] 1 =
           [25 / 2, 20, 30, 75 / 2]"
proof -
  from assms(2) have rw: "r \<le> width" by simp
  note S = padded_row_shape[OF rw, where Reader = Reader and buffer = row and start = 0 and hop = 1]
  have mid: "padded_row Reader row 0 1 width r ! (r + i) = Reader (row ! i)" if "i < width" for i
    using S(2)[OF that] by simp
  have pads: "padded_row Reader row 0 1 width r ! (r - 1 - i) =
                   padded_row Reader row 0 1 width r ! (r + i) \<and>
                 padded_row Reader row 0 1 width r ! (r + width + i) =
                   padded_row Reader row 0 1 width r ! (r + width - 1 - i)" if "i < r" for i
  proof -
    from that assms(2) have i: "i < width" "width - 1 - i < width" by simp_all
    have e: "r + width - 1 - i = r + (width - 1 - i)" using i by simp
    from S(3)[OF that] S(4)[OF that] mid[OF i(1)] mid[OF i(2)] show ?thesis
      unfolding e by simp
  qed
  have ex: "convolve readerT_float writerT_float 4 1 [10, 20, 30, 40] 0 1 4 [1 / 4, 1 / 2, 1 / 4] 1 =
           [25 / 2, 20, 30, 75 / 2]"
    by (simp add: convolve_def padded_row_def read_row_def mirror_edges_def write_row_def
        convolve_reference_def readerT_float_def writerT_float_def Let_def upt_rec nth_append)
  from S(1) mid pads convolve_single_row[OF assms(1), of Reader Writer kernel' r] ex
  show ?thesis by blast
qed

theorem row_convolver_mirror_and_dot_products_witness:
  "length [10, 20, 30, 40 :: real] = 4 \<and> 2 * 1 < (4 :: nat) \<and>
   length (padded_row readerT_float [10, 20, 30, 40] 0 1 4 1) = 4 + 2 * 1 \<and>
   padded_row readerT_float [10, 20, 30, 40] 0 1 4 1 ! (1 - 1 - 0) =
     padded_row readerT_float [10, 20, 30, 40] 0 1 4 1 ! (1 + 0)"
proof -
  have h: "length [10, 20, 30, 40 :: real] = 4" "2 * 1 < (4 :: nat)" by simp_all
  from row_convolver_mirror_and_dot_products[OF h, of readerT_float]
  have "length (padded_row readerT_float [10, 20, 30, 40] 0 1 4 1) = 4 + 2 * 1"
    and "\<forall>i < 1. padded_row readerT_float [10, 20, 30, 40] 0 1 4 1 ! (1 - 1 - i) =
                   padded_row readerT_float [10, 20, 30, 40] 0 1 4 1 ! (1 + i) \<and>
                 padded_row readerT_float [10, 20, 30, 40] 0 1 4 1 ! (1 + 4 + i) =
                   padded_row readerT_float [10, 20, 30, 40] 0 1 4 1 ! (1 + 4 - 1 - i)"
    by blast+
  with h show ?thesis by simp
qed

theorem mirror_edge_example_counterexample:
  "convolve readerT_float writerT_float 4 1 [10, 20, 30, 40] 0 1 4 [1 / 4, 1 / 2, 1 / 4] 1 \<noteq>
     [15, 20, 30, 35] \<and>
   padded_row readerT_float [10, 20, 30, 40] 0 1 4 1 = [10, 10, 20, 30, 40, 40]"
  by (simp add: convolve_def padded_row_def read_row_def mirror_edges_def write_row_def
        convolve_reference_def readerT_float_def writerT_float_def Let_def upt_rec nth_append)




section \<open>Claims about the kernel builder\<close>




text \<open>
  Claim C7, on the input where it fails: \<open>sigma = 0\<close> with the default tolerance 0.001. The
  radius is floor(0 * sqrt(2 * log(1000))) = 0, so one coefficient is computed, at x = 0:
  1 / (0 * sqrt(2 * PI)) is 1 / 0, an infinity, x / sigma is 0 / 0, NaN, and their product is NaN.
  The builder has no failure path for this input and does not return the identity kernel.
\<close>

theorem zero_sigma_gives_nan_kernel:
  "GaussianKernel1D (Finite 0) (Finite (1 / 1000)) = Inr \<lparr>radius = 0, data = [NaN]\<rparr>"
  by (simp add: GaussianKernel1D_def PACKAGE_PI_def truncate_toward_zero_def signed_inf_def Let_def)

end
